theory Spec2Isabelle
  imports Main "HOL-Library.Sublist"
begin

section \<open>Text: Python strings, case mapping and the regular expressions used\<close>

text \<open>
  A Python \<open>str\<close> is a sequence of Unicode code points, and every operation of the
  detector (\<open>lower\<close>, \<open>replace\<close>, \<open>in\<close>, \<open>re.search\<close>) works on code points. A string
  is therefore a list of code points, each a natural number. \<open>ascii\<close> writes the ASCII
  part of a literal; other code points are written as numbers.
\<close>

type_synonym codepoint = nat
type_synonym ustring = "codepoint list"

definition ascii :: "string \<Rightarrow> ustring" where
  "ascii s = map of_char s"

text \<open>
  The Unicode character database of the Python runtime is not part of the repository.
  For ASCII the three properties the program depends on are written out below; for the
  other code points they are the fields of \<open>unicode_db\<close>, a parameter of every function
  that uses them:
  \<^item> \<open>lower_nonascii\<close>: \<open>str.lower\<close> on a string that is not pure ASCII;
  \<^item> \<open>alnum_nonascii\<close>: \<open>str.isalnum\<close> on a non-ASCII code point (the class \<open>\w\<close> of
    \<open>re\<close> is the alphanumerics and the underscore);
  \<^item> \<open>decimal_nonascii\<close>: the decimal digit value of a non-ASCII code point, if it has
    one (the class \<open>\d\<close> of \<open>re\<close>, and the value \<open>int\<close> gives the digit).
\<close>

record unicode_db =
  lower_nonascii :: "ustring \<Rightarrow> ustring"
  alnum_nonascii :: "codepoint \<Rightarrow> bool"
  decimal_nonascii :: "codepoint \<Rightarrow> nat option"

definition ascii_lower :: "codepoint \<Rightarrow> codepoint" where
  "ascii_lower c = (if 0x41 \<le> c \<and> c \<le> 0x5A then c + 0x20 else c)"

text \<open>\<open>str.lower()\<close>: CPython lowercases a pure-ASCII string byte by byte and sends any
  other string through the full Unicode case mapping.\<close>

definition str_lower :: "unicode_db \<Rightarrow> ustring \<Rightarrow> ustring" where
  "str_lower U s = (if list_all (\<lambda>c. c < 0x80) s then map ascii_lower s else lower_nonascii U s)"

definition is_word :: "unicode_db \<Rightarrow> codepoint \<Rightarrow> bool" where
  "is_word U c =
     (if c < 0x80
      then (0x30 \<le> c \<and> c \<le> 0x39) \<or> (0x41 \<le> c \<and> c \<le> 0x5A) \<or> (0x61 \<le> c \<and> c \<le> 0x7A) \<or> c = 0x5F
      else alnum_nonascii U c)"

definition digit_value :: "unicode_db \<Rightarrow> codepoint \<Rightarrow> nat option" where
  "digit_value U c =
     (if c < 0x80 then (if 0x30 \<le> c \<and> c \<le> 0x39 then Some (c - 0x30) else None)
      else decimal_nonascii U c)"

definition is_digit :: "unicode_db \<Rightarrow> codepoint \<Rightarrow> bool" where
  "is_digit U c = (digit_value U c \<noteq> None)"

text \<open>\<open>int(s)\<close> on a string of decimal digits (the only strings the detector converts).\<close>

definition py_int :: "unicode_db \<Rightarrow> ustring \<Rightarrow> int" where
  "py_int U s = foldl (\<lambda>acc c. 10 * acc + int (case digit_value U c of Some v \<Rightarrow> v | None \<Rightarrow> 0)) 0 s"

text \<open>\<open>str.replace(a, b)\<close> where \<open>a\<close> and \<open>b\<close> are single code points.\<close>

definition replace_char :: "codepoint \<Rightarrow> codepoint \<Rightarrow> ustring \<Rightarrow> ustring" where
  "replace_char a b s = map (\<lambda>c. if c = a then b else c) s"

text \<open>\<open>sub in s\<close>.\<close>

fun is_substring :: "ustring \<Rightarrow> ustring \<Rightarrow> bool" where
  "is_substring sub [] = (sub = [])"
| "is_substring sub (c # r) = (prefix sub (c # r) \<or> is_substring sub r)"

text \<open>
  \<open>re.search\<close> tries the pattern at every position from the left and returns the first
  match. A position is the code point before it (\<open>None\<close> at the start) and the rest of
  the string. \<open>\b\<close> holds where exactly one of the two neighbours is a word character,
  the outside of the string counting as a non-word character.
\<close>

definition word_boundary :: "unicode_db \<Rightarrow> codepoint option \<Rightarrow> ustring \<Rightarrow> bool" where
  "word_boundary U prev rest =
     ((case prev of None \<Rightarrow> False | Some c \<Rightarrow> is_word U c)
      \<noteq> (case rest of [] \<Rightarrow> False | c # _ \<Rightarrow> is_word U c))"

fun re_search :: "(codepoint option \<Rightarrow> ustring \<Rightarrow> ustring option) \<Rightarrow> codepoint option \<Rightarrow> ustring \<Rightarrow> ustring option" where
  "re_search m prev [] = m prev []"
| "re_search m prev (c # r) =
     (case m prev (c # r) of Some g \<Rightarrow> Some g | None \<Rightarrow> re_search m (Some c) r)"

text \<open>\<open>\b([1-9]|[12][0-9]|3[01])\b\<close> at one position; the result is group 1. The
  alternatives are tried in order, and an alternative whose closing \<open>\b\<close> fails is given
  up for the next one.\<close>

definition day_pattern :: "unicode_db \<Rightarrow> codepoint option \<Rightarrow> ustring \<Rightarrow> ustring option" where
  "day_pattern U prev s =
     (if \<not> word_boundary U prev s then None
      else case s of
        [] \<Rightarrow> None
      | c # r \<Rightarrow>
          if 0x31 \<le> c \<and> c \<le> 0x39 \<and> word_boundary U (Some c) r then Some [c]
          else (case r of
            [] \<Rightarrow> None
          | c2 # r2 \<Rightarrow>
              if (c = 0x31 \<or> c = 0x32) \<and> 0x30 \<le> c2 \<and> c2 \<le> 0x39 \<and> word_boundary U (Some c2) r2
              then Some [c, c2]
              else if c = 0x33 \<and> (c2 = 0x30 \<or> c2 = 0x31) \<and> word_boundary U (Some c2) r2
              then Some [c, c2]
              else None))"

text \<open>\<open>\b(20\d{2})\b\<close> at one position.\<close>

definition year_pattern :: "unicode_db \<Rightarrow> codepoint option \<Rightarrow> ustring \<Rightarrow> ustring option" where
  "year_pattern U prev s =
     (if \<not> word_boundary U prev s then None
      else case s of
        a # b # c # d # r \<Rightarrow>
          if a = 0x32 \<and> b = 0x30 \<and> is_digit U c \<and> is_digit U d \<and> word_boundary U (Some d) r
          then Some [a, b, c, d] else None
      | _ \<Rightarrow> None)"

text \<open>\<open>\b\<close> + \<open>re.escape(p)\<close> + \<open>\b\<close> at one position: the literal \<open>p\<close> between two word
  boundaries.\<close>

definition literal_pattern :: "unicode_db \<Rightarrow> ustring \<Rightarrow> codepoint option \<Rightarrow> ustring \<Rightarrow> ustring option" where
  "literal_pattern U p prev s =
     (if word_boundary U prev s \<and> prefix p s
         \<and> word_boundary U (if p = [] then prev else Some (last p)) (drop (length p) s)
      then Some p else None)"

section \<open>earthquake\_patterns.py\<close>

definition PROVINCES :: "ustring list" where
  "PROVINCES = [
    ascii ''adana'',
    ascii ''ad'' @ [0x131] @ ascii ''yaman'',
    ascii ''afyonkarahisar'',
    ascii ''a'' @ [0x11F] @ ascii ''r'' @ [0x131],
    ascii ''aksaray'',
    ascii ''amasya'',
    ascii ''ankara'',
    ascii ''antalya'',
    ascii ''ardahan'',
    ascii ''artvin'',
    ascii ''ayd'' @ [0x131] @ ascii ''n'',
    ascii ''bal'' @ [0x131] @ ascii ''kesir'',
    ascii ''bart'' @ [0x131] @ ascii ''n'',
    ascii ''batman'',
    ascii ''bayburt'',
    ascii ''bilecik'',
    ascii ''bing'' @ [0xF6] @ ascii ''l'',
    ascii ''bitlis'',
    ascii ''bolu'',
    ascii ''burdur'',
    ascii ''bursa'',
    [0xE7] @ ascii ''anakkale'',
    [0xE7] @ ascii ''ank'' @ [0x131] @ ascii ''r'' @ [0x131],
    [0xE7] @ ascii ''orum'',
    ascii ''denizli'',
    ascii ''diyarbak'' @ [0x131] @ ascii ''r'',
    ascii ''d'' @ [0xFC] @ ascii ''zce'',
    ascii ''edirne'',
    ascii ''elaz'' @ [0x131, 0x11F],
    ascii ''erzincan'',
    ascii ''erzurum'',
    ascii ''eski'' @ [0x15F] @ ascii ''ehir'',
    ascii ''gaziantep'',
    ascii ''giresun'',
    ascii ''g'' @ [0xFC] @ ascii ''m'' @ [0xFC, 0x15F] @ ascii ''hane'',
    ascii ''hakk'' @ [0xE2] @ ascii ''ri'',
    ascii ''hatay'',
    [0x131, 0x11F] @ ascii ''d'' @ [0x131] @ ascii ''r'',
    ascii ''isparta'',
    ascii ''istanbul'',
    ascii ''i'' @ [0x307] @ ascii ''stanbul'',
    ascii ''izmir'',
    ascii ''i'' @ [0x307] @ ascii ''zmir'',
    ascii ''kahramanmara'' @ [0x15F],
    ascii ''karab'' @ [0xFC] @ ascii ''k'',
    ascii ''karaman'',
    ascii ''kars'',
    ascii ''kastamonu'',
    ascii ''kayseri'',
    ascii ''kilis'',
    ascii ''k'' @ [0x131] @ ascii ''r'' @ [0x131] @ ascii ''kkale'',
    ascii ''k'' @ [0x131] @ ascii ''rklareli'',
    ascii ''k'' @ [0x131] @ ascii ''r'' @ [0x15F] @ ascii ''ehir'',
    ascii ''kocaeli'',
    ascii ''konya'',
    ascii ''k'' @ [0xFC] @ ascii ''tahya'',
    ascii ''malatya'',
    ascii ''manisa'',
    ascii ''mardin'',
    ascii ''mersin'',
    ascii ''mu'' @ [0x11F] @ ascii ''la'',
    ascii ''mu'' @ [0x15F],
    ascii ''nev'' @ [0x15F] @ ascii ''ehir'',
    ascii ''ni'' @ [0x11F] @ ascii ''de'',
    ascii ''ordu'',
    ascii ''osmaniye'',
    ascii ''rize'',
    ascii ''sakarya'',
    ascii ''samsun'',
    ascii ''siirt'',
    ascii ''sinop'',
    ascii ''sivas'',
    [0x15F] @ ascii ''anl'' @ [0x131] @ ascii ''urfa'',
    [0x15F, 0x131] @ ascii ''rnak'',
    ascii ''tekirda'' @ [0x11F],
    ascii ''tokat'',
    ascii ''trabzon'',
    ascii ''tunceli'',
    ascii ''u'' @ [0x15F] @ ascii ''ak'',
    ascii ''van'',
    ascii ''yalova'',
    ascii ''yozgat'',
    ascii ''zonguldak'',
    ascii ''adiyaman'',
    ascii ''afyon'',
    ascii ''agri'',
    ascii ''aydin'',
    ascii ''balikesir'',
    ascii ''bartin'',
    ascii ''bayburt'',
    ascii ''bingol'',
    ascii ''canakkale'',
    ascii ''cankiri'',
    ascii ''corum'',
    ascii ''diyarbakir'',
    ascii ''duzce'',
    ascii ''elazig'',
    ascii ''gumushane'',
    ascii ''hakkari'',
    ascii ''igdir'',
    ascii ''kahramanmaras'',
    ascii ''karabuk'',
    ascii ''kirikkale'',
    ascii ''kirklareli'',
    ascii ''kirsehir'',
    ascii ''kutahya'',
    ascii ''mugla'',
    ascii ''mus'',
    ascii ''nigde'',
    ascii ''sanliurfa'',
    ascii ''sirnak'',
    ascii ''tekirdag'']"

text \<open>The dictionary \<open>MONTHS\<close> is iterated in insertion order, so it is an association
  list.\<close>

definition MONTHS :: "(ustring \<times> int) list" where
  "MONTHS = [
    (ascii ''ocak'', 1),
    ([0x15F] @ ascii ''ubat'', 2),
    (ascii ''subat'', 2),
    (ascii ''mart'', 3),
    (ascii ''nisan'', 4),
    (ascii ''may'' @ [0x131] @ ascii ''s'', 5),
    (ascii ''mayis'', 5),
    (ascii ''haziran'', 6),
    (ascii ''temmuz'', 7),
    (ascii ''a'' @ [0x11F] @ ascii ''ustos'', 8),
    (ascii ''agustos'', 8),
    (ascii ''eyl'' @ [0xFC] @ ascii ''l'', 9),
    (ascii ''eylul'', 9),
    (ascii ''ekim'', 10),
    (ascii ''kas'' @ [0x131] @ ascii ''m'', 11),
    (ascii ''kasim'', 11),
    (ascii ''aral'' @ [0x131] @ ascii ''k'', 12),
    (ascii ''aralik'', 12)]"

definition EARTHQUAKE_KEYWORDS :: "ustring list" where
  "EARTHQUAKE_KEYWORDS = [ascii ''deprem'', ascii ''depremi'']"

subsection \<open>normalize\_turkish\<close>

definition replacements :: "(codepoint \<times> codepoint) list" where
  "replacements = [
    (0x131, 0x69), (0x11F, 0x67), (0xFC, 0x75), (0x15F, 0x73), (0xF6, 0x6F), (0xE7, 0x63),
    (0x130, 0x69), (0x11E, 0x67), (0xDC, 0x75), (0x15E, 0x73), (0xD6, 0x6F), (0xC7, 0x63)]"

definition normalize_turkish :: "unicode_db \<Rightarrow> ustring \<Rightarrow> ustring" where
  "normalize_turkish U text =
     foldl (\<lambda>normalized (tr_char, en_char). replace_char tr_char en_char normalized)
       (str_lower U text) replacements"

subsection \<open>is\_date\_current\<close>

text \<open>
  \<open>datetime(year, month, day)\<close> raises \<open>ValueError\<close> unless the triple is a date of the
  proleptic Gregorian calendar with a year in 1..9999; \<open>make_date\<close> returns \<open>None\<close>
  there. The difference of two dates in days is the difference of their ordinals
  (\<open>toordinal\<close>, day 1 being 1 January of year 1).
\<close>

record date =
  date_year :: int
  date_month :: int
  date_day :: int

definition is_leap :: "int \<Rightarrow> bool" where
  "is_leap y = (y mod 4 = 0 \<and> (y mod 100 \<noteq> 0 \<or> y mod 400 = 0))"

definition days_in_month :: "int \<Rightarrow> int \<Rightarrow> int" where
  "days_in_month y m =
     (if m = 2 then (if is_leap y then 29 else 28)
      else if m = 4 \<or> m = 6 \<or> m = 9 \<or> m = 11 then 30 else 31)"

definition make_date :: "int \<Rightarrow> int \<Rightarrow> int \<Rightarrow> date option" where
  "make_date y m d =
     (if 1 \<le> y \<and> y \<le> 9999 \<and> 1 \<le> m \<and> m \<le> 12 \<and> 1 \<le> d \<and> d \<le> days_in_month y m
      then Some \<lparr>date_year = y, date_month = m, date_day = d\<rparr> else None)"

definition days_before_year :: "int \<Rightarrow> int" where
  "days_before_year y = (y - 1) * 365 + (y - 1) div 4 - (y - 1) div 100 + (y - 1) div 400"

definition days_before_month :: "int \<Rightarrow> int \<Rightarrow> int" where
  "days_before_month y m = (\<Sum>k \<leftarrow> [1..<nat m]. days_in_month y (int k))"

definition toordinal :: "date \<Rightarrow> int" where
  "toordinal dt =
     days_before_year (date_year dt) + days_before_month (date_year dt) (date_month dt) + date_day dt"

text \<open>\<open>now\<close> is the value of \<open>datetime.now().date()\<close> at the call.\<close>

definition is_date_current :: "date \<Rightarrow> int \<Rightarrow> int \<Rightarrow> int \<Rightarrow> int \<Rightarrow> bool" where
  "is_date_current now day month year tolerance_days =
     (case make_date year month day of
        None \<Rightarrow> False
      | Some extracted_date \<Rightarrow>
          let time_diff = \<bar>toordinal extracted_date - toordinal now\<bar>
          in time_diff \<le> tolerance_days)"

subsection \<open>is\_earthquake\_baslik\<close>

datatype confidence = High | Medium

record pattern_match =
  day :: int
  month :: int
  month_name :: ustring
  year :: int
  province :: ustring
  has_earthquake_keyword :: bool
  confidence :: confidence

text \<open>The loop over \<open>MONTHS.items()\<close>: the first spelling that is a substring of the
  lowercased title.\<close>

fun find_month :: "(ustring \<times> int) list \<Rightarrow> ustring \<Rightarrow> (ustring \<times> int) option" where
  "find_month [] title_lower = None"
| "find_month ((month_str, month_num) # ms) title_lower =
     (if is_substring month_str title_lower then Some (month_str, month_num)
      else find_month ms title_lower)"

text \<open>The loop over \<open>PROVINCES\<close>: the first entry that occurs as a whole word in the
  lowercased title, or whose normalised spelling occurs as a whole word in the normalised
  title. The entry itself is what is returned.\<close>

fun find_province :: "unicode_db \<Rightarrow> ustring list \<Rightarrow> ustring \<Rightarrow> ustring \<Rightarrow> ustring option" where
  "find_province U [] title_lower title_normalized = None"
| "find_province U (prov # ps) title_lower title_normalized =
     (let province_normalized = normalize_turkish U prov
      in if re_search (literal_pattern U prov) None title_lower \<noteq> None
            \<or> re_search (literal_pattern U province_normalized) None title_normalized \<noteq> None
         then Some prov
         else find_province U ps title_lower title_normalized)"

definition is_earthquake_baslik :: "unicode_db \<Rightarrow> date \<Rightarrow> ustring \<Rightarrow> pattern_match option" where
  "is_earthquake_baslik U now title =
     (let title_lower = str_lower U title;
          title_normalized = normalize_turkish U title
      in case re_search (day_pattern U) None title of
           None \<Rightarrow> None
         | Some day_group \<Rightarrow>
             (case find_month MONTHS title_lower of
                None \<Rightarrow> None
              | Some (month_str, month_num) \<Rightarrow>
                  (case re_search (year_pattern U) None title of
                     None \<Rightarrow> None
                   | Some year_group \<Rightarrow>
                       if \<not> is_date_current now (py_int U day_group) month_num (py_int U year_group) 1
                       then None
                       else (case find_province U PROVINCES title_lower title_normalized of
                               None \<Rightarrow> None
                             | Some found_province \<Rightarrow>
                                 let has_kw = list_ex (\<lambda>kw. is_substring kw title_lower) EARTHQUAKE_KEYWORDS
                                 in Some \<lparr>day = py_int U day_group,
                                           month = month_num,
                                           month_name = month_str,
                                           year = py_int U year_group,
                                           province = found_province,
                                           has_earthquake_keyword = has_kw,
                                           confidence = (if has_kw then High else Medium)\<rparr>))))"

subsection \<open>The Unicode tables on the Latin repertoire\<close>

text \<open>
  A concrete \<open>unicode_db\<close>, used to run the detector on examples. It has the values of
  CPython's tables on the code points U+0080..U+017F (Latin-1 Supplement and Latin
  Extended-A, which hold every letter of the Turkish alphabet) and on U+0307 (combining
  dot above); strings with other code points are outside what it describes. Lowercasing
  is code point by code point there; U+0130 (capital I with dot above) is the one code
  point whose lowercase form is two code points, U+0069 U+0307.
\<close>

definition latin_lower :: "codepoint \<Rightarrow> ustring" where
  "latin_lower c =
     (if 0x41 \<le> c \<and> c \<le> 0x5A then [c + 0x20]
      else if 0xC0 \<le> c \<and> c \<le> 0xDE \<and> c \<noteq> 0xD7 then [c + 0x20]
      else if c = 0x130 then [0x69, 0x307]
      else if c = 0x178 then [0xFF]
      else if ((0x100 \<le> c \<and> c \<le> 0x137) \<or> (0x14A \<le> c \<and> c \<le> 0x177)) \<and> even c then [c + 1]
      else if ((0x139 \<le> c \<and> c \<le> 0x148) \<or> (0x179 \<le> c \<and> c \<le> 0x17E)) \<and> odd c then [c + 1]
      else [c])"

definition latin_alnum :: "codepoint \<Rightarrow> bool" where
  "latin_alnum c =
     (c \<in> {0xAA, 0xB2, 0xB3, 0xB5, 0xB9, 0xBA, 0xBC, 0xBD, 0xBE}
      \<or> (0xC0 \<le> c \<and> c \<le> 0x17F \<and> c \<noteq> 0xD7 \<and> c \<noteq> 0xF7))"

definition latin_db :: unicode_db where
  "latin_db = \<lparr>lower_nonascii = (\<lambda>s. concat (map latin_lower s)),
               alnum_nonascii = latin_alnum,
               decimal_nonascii = (\<lambda>c. None)\<rparr>"

section \<open>earthquake\_detector.py\<close>

definition HEARTBEAT_INTERVAL :: nat where
  "HEARTBEAT_INTERVAL = 2"

text \<open>One entry of the list \<open>fetch_gundem\<close> returns.\<close>

record baslik =
  title :: ustring
  url :: ustring
  entry_count :: ustring
  timestamp :: ustring

text \<open>\<open>str(n)\<close> for an integer, as the f-string of the identifier formats it.\<close>

fun digits_of :: "nat \<Rightarrow> ustring" where
  "digits_of n = (if n < 10 then [0x30 + n] else digits_of (n div 10) @ [0x30 + n mod 10])"

declare digits_of.simps [simp del]

definition str_int :: "int \<Rightarrow> ustring" where
  "str_int i = (if i < 0 then 0x2D # digits_of (nat (- i)) else digits_of (nat i))"

text \<open>\<open>earthquake_id = f"{day}-{month}-{year}-{province}"\<close>.\<close>

definition earthquake_id :: "pattern_match \<Rightarrow> ustring" where
  "earthquake_id pm =
     str_int (day pm) @ [0x2D] @ str_int (month pm) @ [0x2D] @ str_int (year pm) @ [0x2D] @ province pm"

text \<open>
  What the loop does to the outside world is recorded in order: every call of
  \<open>log_message\<close> by the loop itself, which is either the heartbeat line, with the count
  it prints, or the line of the handler \<open>except Exception\<close> of the main loop; and every
  call of \<open>save_earthquake_event\<close>, with its two arguments and whether it returned
  (\<open>True\<close>) or raised. \<open>log_message\<close> prints its line and then appends it to the log
  file; either step can raise, and then the call raises.
\<close>

datatype emission =
  Heartbeat nat
| SinkCall baslik pattern_match bool
| UnexpectedError

text \<open>\<open>running\<close> is false once an exception has left \<open>while True\<close>.\<close>

record monitor_state =
  detected_earthquakes :: "ustring set"
  fetch_count :: nat
  emitted :: "emission list"
  running :: bool

text \<open>
  The surroundings of one fetched entry, as they are while the loop is at it: the date
  \<open>datetime.now().date()\<close> gives to the detector, whether \<open>save_earthquake_event\<close>, if
  it is called for this entry, returns normally, and whether a call of \<open>log_message\<close> by
  the loop itself returns normally. The loop calls \<open>log_message\<close> at two places: for the
  heartbeat line, just before the first entry of a cycle, and in the handler, after the
  entry whose sink call raised. (The lines \<open>save_earthquake_event\<close> logs are part of the
  sink call.)
\<close>

record fetched =
  item :: baslik
  clock :: date
  sink_ok :: bool
  log_ok :: bool

text \<open>The loop \<open>for baslik in basliks\<close>. The second component is the entry at which an
  exception left the loop, if one did; the entries after it are not looked at.\<close>

fun check_basliks :: "unicode_db \<Rightarrow> monitor_state \<Rightarrow> fetched list \<Rightarrow> monitor_state \<times> fetched option" where
  "check_basliks U st [] = (st, None)"
| "check_basliks U st (x # xs) =
     (case is_earthquake_baslik U (clock x) (title (item x)) of
        None \<Rightarrow> check_basliks U st xs
      | Some pm \<Rightarrow>
          if earthquake_id pm \<in> detected_earthquakes st then check_basliks U st xs
          else if sink_ok x
          then check_basliks U
                 (st\<lparr>emitted := emitted st @ [SinkCall (item x) pm True],
                     detected_earthquakes := insert (earthquake_id pm) (detected_earthquakes st)\<rparr>) xs
          else (st\<lparr>emitted := emitted st @ [SinkCall (item x) pm False]\<rparr>, Some x))"

text \<open>The handler \<open>except Exception\<close> of the main loop, entered while the loop is at the
  entry \<open>x\<close>: it calls \<open>log_message\<close> with one line; when that call raises, the exception
  is raised inside the handler and leaves \<open>while True\<close>.\<close>

definition handle_exception :: "monitor_state \<Rightarrow> fetched \<Rightarrow> monitor_state" where
  "handle_exception st x =
     st\<lparr>emitted := emitted st @ [UnexpectedError], running := (running st \<and> log_ok x)\<rparr>"

text \<open>One pass of \<open>while True\<close> in which \<open>fetch_gundem\<close> returns. \<open>fetch_gundem\<close> catches
  its own errors and returns the empty list for them, so such a pass is given by the list
  returned. An exception of the heartbeat line or of a sink call ends the pass in the
  handler; the entries not yet looked at are skipped. (A pass in which \<open>fetch_gundem\<close>
  itself raises, which takes a failure of the \<open>log_message\<close> call in its own handlers, is
  not described: it reaches the handler before \<open>fetch_count\<close> advances.)\<close>

definition monitor_cycle :: "unicode_db \<Rightarrow> monitor_state \<Rightarrow> fetched list \<Rightarrow> monitor_state" where
  "monitor_cycle U st basliks =
     (let st1 = st\<lparr>fetch_count := fetch_count st + 1\<rparr>
      in if basliks \<noteq> [] then
           let heartbeat = (fetch_count st1 mod HEARTBEAT_INTERVAL = 0);
               st2 = (if heartbeat
                      then st1\<lparr>emitted := emitted st1 @ [Heartbeat (fetch_count st1)]\<rparr>
                      else st1)
           in if heartbeat \<and> \<not> log_ok (hd basliks) then handle_exception st2 (hd basliks)
              else (case check_basliks U st2 basliks of
                      (st3, None) \<Rightarrow> st3
                    | (st3, Some x) \<Rightarrow> handle_exception st3 x)
         else st1)"

definition initial_state :: monitor_state where
  "initial_state = \<lparr>detected_earthquakes = {}, fetch_count = 0, emitted = [], running = True\<rparr>"

text \<open>The loop up to a \<open>KeyboardInterrupt\<close>: the cycles fetched so far, in order. Once an
  exception has left the loop, nothing more is done.\<close>

definition monitor_earthquakes :: "unicode_db \<Rightarrow> fetched list list \<Rightarrow> monitor_state" where
  "monitor_earthquakes U cycles =
     foldl (\<lambda>st basliks. if running st then monitor_cycle U st basliks else st) initial_state cycles"

section \<open>The vocabulary of the specification\<close>

text \<open>
  The properties below speak of tokens in a title by position, independently of how the
  search functions walk the string. \<open>boundary_at U s i\<close>: position \<open>i\<close> of \<open>s\<close> is a word
  boundary. \<open>token_at U s i n\<close>: the \<open>n\<close> code points from position \<open>i\<close> lie in \<open>s\<close>, between
  two word boundaries.
\<close>

definition boundary_at :: "unicode_db \<Rightarrow> ustring \<Rightarrow> nat \<Rightarrow> bool" where
  "boundary_at U s i = ((0 < i \<and> is_word U (s ! (i - 1))) \<noteq> (i < length s \<and> is_word U (s ! i)))"

definition substring :: "ustring \<Rightarrow> nat \<Rightarrow> nat \<Rightarrow> ustring" where
  "substring s i n = take n (drop i s)"

definition token_at :: "unicode_db \<Rightarrow> ustring \<Rightarrow> nat \<Rightarrow> nat \<Rightarrow> bool" where
  "token_at U s i n = (i + n \<le> length s \<and> boundary_at U s i \<and> boundary_at U s (i + n))"

text \<open>A day token is the decimal numeral, in ASCII digits and without a leading zero,
  of an integer from 1 to 31.\<close>

definition decimal_value :: "ustring \<Rightarrow> nat" where
  "decimal_value tok = foldl (\<lambda>a c. 10 * a + (c - 0x30)) 0 tok"

definition is_day_token :: "ustring \<Rightarrow> bool" where
  "is_day_token tok =
     (tok \<noteq> [] \<and> list_all (\<lambda>c. 0x30 \<le> c \<and> c \<le> 0x39) tok \<and> hd tok \<noteq> 0x30
      \<and> 1 \<le> decimal_value tok \<and> decimal_value tok \<le> 31)"

definition day_token_at :: "unicode_db \<Rightarrow> ustring \<Rightarrow> nat \<Rightarrow> nat \<Rightarrow> bool" where
  "day_token_at U s i n = (token_at U s i n \<and> is_day_token (substring s i n))"

definition has_day_token :: "unicode_db \<Rightarrow> ustring \<Rightarrow> bool" where
  "has_day_token U s = (\<exists>i \<le> length s. \<exists>n \<le> length s. day_token_at U s i n)"

text \<open>A year token is \<open>20\<close> followed by two decimal digits.\<close>

definition is_year_token :: "unicode_db \<Rightarrow> ustring \<Rightarrow> bool" where
  "is_year_token U tok =
     (length tok = 4 \<and> tok ! 0 = 0x32 \<and> tok ! 1 = 0x30 \<and> is_digit U (tok ! 2) \<and> is_digit U (tok ! 3))"

definition has_year_token :: "unicode_db \<Rightarrow> ustring \<Rightarrow> bool" where
  "has_year_token U s =
     (\<exists>i \<le> length s. token_at U s i 4 \<and> is_year_token U (substring s i 4))"

definition occurs_in :: "ustring \<Rightarrow> ustring \<Rightarrow> bool" where
  "occurs_in sub s = (\<exists>i \<le> length s. i + length sub \<le> length s \<and> substring s i (length sub) = sub)"

definition has_month_spelling :: "unicode_db \<Rightarrow> ustring \<Rightarrow> bool" where
  "has_month_spelling U s = (\<exists>entry \<in> set MONTHS. occurs_in (fst entry) (str_lower U s))"

definition has_keyword :: "unicode_db \<Rightarrow> ustring \<Rightarrow> bool" where
  "has_keyword U s = (\<exists>kw \<in> set EARTHQUAKE_KEYWORDS. occurs_in kw (str_lower U s))"

text \<open>\<open>p\<close> occurs in \<open>s\<close> as a whole word.\<close>

definition whole_word_in :: "unicode_db \<Rightarrow> ustring \<Rightarrow> ustring \<Rightarrow> bool" where
  "whole_word_in U p s =
     (\<exists>i \<le> length s. token_at U s i (length p) \<and> substring s i (length p) = p)"

text \<open>A title names a province when an entry of \<open>PROVINCES\<close> occurs as a whole word in the
  lowercased title, or the normalised entry does in the normalised title.\<close>

definition names_province :: "unicode_db \<Rightarrow> ustring \<Rightarrow> bool" where
  "names_province U s =
     (\<exists>p \<in> set PROVINCES.
        whole_word_in U p (str_lower U s)
        \<or> whole_word_in U (normalize_turkish U p) (normalize_turkish U s))"

text \<open>The substitution of \<open>normalize_turkish\<close> on one code point: the first entry of the
  table for it, if there is one.\<close>

definition turkish_fold :: "codepoint \<Rightarrow> codepoint" where
  "turkish_fold c = (case map_of replacements c of Some e \<Rightarrow> e | None \<Rightarrow> c)"

text \<open>The sink calls of a trace, and the key (day, month, year, province) of a match.\<close>

definition event_identity :: "pattern_match \<Rightarrow> int \<times> int \<times> int \<times> ustring" where
  "event_identity pm = (day pm, month pm, year pm, province pm)"

fun sink_calls :: "emission list \<Rightarrow> (pattern_match \<times> bool) list" where
  "sink_calls [] = []"
| "sink_calls (SinkCall b pm ok # es) = (pm, ok) # sink_calls es"
| "sink_calls (e # es) = sink_calls es"

fun heartbeats :: "emission list \<Rightarrow> nat list" where
  "heartbeats [] = []"
| "heartbeats (Heartbeat n # es) = n # heartbeats es"
| "heartbeats (e # es) = heartbeats es"

text \<open>The calls of the sink made by one cycle that starts in the state \<open>st\<close>.\<close>

definition cycle_calls :: "unicode_db \<Rightarrow> monitor_state \<Rightarrow> fetched list \<Rightarrow> (pattern_match \<times> bool) list" where
  "cycle_calls U st basliks =
     drop (length (sink_calls (emitted st))) (sink_calls (emitted (monitor_cycle U st basliks)))"

text \<open>
  A token in [1,31], in the words of the specification: a run of decimal digits between
  two word boundaries whose integer value is between 1 and 31. Unlike a day token it may
  begin with zeros and may be written in any decimal digits.
\<close>

definition in_day_range :: "unicode_db \<Rightarrow> ustring \<Rightarrow> bool" where
  "in_day_range U tok = (tok \<noteq> [] \<and> list_all (is_digit U) tok \<and> 1 \<le> py_int U tok \<and> py_int U tok \<le> 31)"

definition range_token_at :: "unicode_db \<Rightarrow> ustring \<Rightarrow> nat \<Rightarrow> nat \<Rightarrow> bool" where
  "range_token_at U s i n = (token_at U s i n \<and> in_day_range U (substring s i n))"

section \<open>Auxiliary definitions\<close>

text \<open>The code point before position \<open>k\<close> of \<open>s\<close>, where \<open>prev\<close> stands before \<open>s\<close>.\<close>

definition char_before :: "codepoint option \<Rightarrow> ustring \<Rightarrow> nat \<Rightarrow> codepoint option" where
  "char_before prev s k = (if k = 0 then prev else Some (s ! (k - 1)))"

text \<open>
  The search for a non-empty literal between word boundaries, written so that a position
  is given up at the first code point that differs. It is proved equal to
  \<open>re_search (literal_pattern U (a # p))\<close> below and only serves to run examples.
\<close>

fun starts_with :: "ustring \<Rightarrow> ustring \<Rightarrow> bool" where
  "starts_with [] s = True"
| "starts_with (a # p) [] = False"
| "starts_with (a # p) (b # s) = (if a = b then starts_with p s else False)"

fun literal_scan :: "unicode_db \<Rightarrow> codepoint \<Rightarrow> ustring \<Rightarrow> codepoint option \<Rightarrow> ustring \<Rightarrow> bool" where
  "literal_scan U a p prev [] = False"
| "literal_scan U a p prev (c # r) =
     (if c = a then
        (if starts_with p r then
           (if word_boundary U prev (c # r) then
              (if word_boundary U (Some (last (a # p))) (drop (length p) r) then True
               else literal_scan U a p (Some c) r)
            else literal_scan U a p (Some c) r)
         else literal_scan U a p (Some c) r)
      else literal_scan U a p (Some c) r)"

text \<open>
  Two parts of \<open>monitor_cycle\<close> by name: the heartbeat line before the loop over the
  entries, and what follows that loop.
\<close>

definition heartbeat_step :: "monitor_state \<Rightarrow> monitor_state" where
  "heartbeat_step st1 =
     (if fetch_count st1 mod HEARTBEAT_INTERVAL = 0
      then st1\<lparr>emitted := emitted st1 @ [Heartbeat (fetch_count st1)]\<rparr> else st1)"

definition after_loop :: "monitor_state \<times> fetched option \<Rightarrow> monitor_state" where
  "after_loop r = (case snd r of None \<Rightarrow> fst r | Some x \<Rightarrow> handle_exception (fst r) x)"

text \<open>
  The invariant of the loop. In the record of what was emitted, a call of the sink that
  returned is followed by no call for the same identifier, and the identifier of every
  call that returned is in \<open>detected_earthquakes\<close>.
\<close>

definition sends_once :: "emission list \<Rightarrow> bool" where
  "sends_once es =
     (\<forall>xs b pm ys. es = xs @ SinkCall b pm True # ys \<longrightarrow>
        (\<forall>b' pm' ok. SinkCall b' pm' ok \<in> set ys \<longrightarrow> earthquake_id pm' \<noteq> earthquake_id pm))"

definition dedup_inv :: "monitor_state \<Rightarrow> bool" where
  "dedup_inv st =
     (sends_once (emitted st)
      \<and> (\<forall>b pm. SinkCall b pm True \<in> set (emitted st) \<longrightarrow> earthquake_id pm \<in> detected_earthquakes st))"

text \<open>The running example: a topic posted on the day of the earthquake it names.\<close>

definition example_title :: ustring where
  "example_title = ascii ''22 ekim 2025 adana depremi''"

definition example_now :: date where
  "example_now = \<lparr>date_year = 2025, date_month = 10, date_day = 22\<rparr>"

definition example_later :: date where
  "example_later = \<lparr>date_year = 2025, date_month = 10, date_day = 25\<rparr>"

definition example_match :: pattern_match where
  "example_match = \<lparr>day = 22, month = 10, month_name = ascii ''ekim'', year = 2025,
     province = ascii ''adana'', has_earthquake_keyword = True, confidence = High\<rparr>"

definition example_baslik :: baslik where
  "example_baslik = \<lparr>title = example_title, url = ascii ''/22-ekim-2025-adana-depremi--8012345'',
     entry_count = ascii ''15'', timestamp = ascii ''2025-10-22T10:00:00''\<rparr>"

definition example_fetched :: "bool \<Rightarrow> fetched" where
  "example_fetched ok = \<lparr>item = example_baslik, clock = example_now, sink_ok = ok, log_ok = True\<rparr>"

text \<open>Two titles for one earthquake in the province of Hakkari, the first with the
  circumflexed a (U+00E2) of the official spelling, the second with a plain a.\<close>

definition hakkari_accented :: ustring where
  "hakkari_accented = ascii ''22 ekim 2025 hakk'' @ [0xE2] @ ascii ''ri depremi''"

definition hakkari_folded :: ustring where
  "hakkari_folded = ascii ''22 ekim 2025 hakkari depremi''"

definition hakkari_accented_match :: pattern_match where
  "hakkari_accented_match = \<lparr>day = 22, month = 10, month_name = ascii ''ekim'', year = 2025,
     province = ascii ''hakk'' @ [0xE2] @ ascii ''ri'', has_earthquake_keyword = True,
     confidence = High\<rparr>"

definition hakkari_folded_match :: pattern_match where
  "hakkari_folded_match = \<lparr>day = 22, month = 10, month_name = ascii ''ekim'', year = 2025,
     province = ascii ''hakkari'', has_earthquake_keyword = True, confidence = High\<rparr>"

text \<open>A fetched entry with the given title, seen on the day of the running example, with
  a sink and a log file that work.\<close>

definition fetched_title :: "ustring \<Rightarrow> fetched" where
  "fetched_title t =
     \<lparr>item = \<lparr>title = t, url = [], entry_count = ascii ''0'', timestamp = []\<rparr>,
      clock = example_now, sink_ok = True, log_ok = True\<rparr>"

text \<open>
  Two titles seen on 3 October 2025. In the first the numeral \<open>07\<close> stands before the
  day token \<open>3\<close>; in the second the day token \<open>3\<close> stands before the day token \<open>4\<close> of
  the date the title gives.
\<close>

definition october_third :: date where
  "october_third = \<lparr>date_year = 2025, date_month = 10, date_day = 3\<rparr>"

definition october_seventh :: date where
  "october_seventh = \<lparr>date_year = 2025, date_month = 10, date_day = 7\<rparr>"

definition padded_day_title :: ustring where
  "padded_day_title = ascii ''07 ekim 2025 saat 3 adana depremi''"

definition two_numbers_title :: ustring where
  "two_numbers_title = ascii ''3 artci 4 ekim 2025 adana depremi''"

definition october_third_match :: pattern_match where
  "october_third_match = \<lparr>day = 3, month = 10, month_name = ascii ''ekim'', year = 2025,
     province = ascii ''adana'', has_earthquake_keyword = True, confidence = High\<rparr>"

text \<open>The name of a city, written with the capital I with dot above (U+0130).\<close>

definition istanbul_dotted :: ustring where
  "istanbul_dotted = [0x130] @ ascii ''stanbul''"

section \<open>The search functions and the positions of a string\<close>

lemma char_before_Cons: "char_before prev (c # r) (Suc k) = char_before (Some c) r k"
  by (cases k) (simp_all add: char_before_def)

lemma re_search_None_iff:
  "re_search m prev s = None \<longleftrightarrow> (\<forall>k \<le> length s. m (char_before prev s k) (drop k s) = None)"
proof (induction s arbitrary: prev)
  case Nil
  then show ?case by (simp add: char_before_def)
next
  case (Cons c r)
  have "(\<forall>k \<le> length (c # r). m (char_before prev (c # r) k) (drop k (c # r)) = None)
        \<longleftrightarrow> m prev (c # r) = None \<and> (\<forall>k \<le> length r. m (char_before (Some c) r k) (drop k r) = None)"
    (is "?L \<longleftrightarrow> ?A \<and> ?B")
  proof
    assume L: ?L
    have A: ?A using L[rule_format, of 0] by (simp add: char_before_def)
    have B: ?B
    proof (intro allI impI)
      fix k assume "k \<le> length r"
      then show "m (char_before (Some c) r k) (drop k r) = None"
        using L[rule_format, of "Suc k"] by (simp add: char_before_Cons)
    qed
    from A B show "?A \<and> ?B" ..
  next
    assume AB: "?A \<and> ?B"
    show ?L
    proof (intro allI impI)
      fix k assume k: "k \<le> length (c # r)"
      show "m (char_before prev (c # r) k) (drop k (c # r)) = None"
      proof (cases k)
        case 0
        then show ?thesis using AB by (simp add: char_before_def)
      next
        case (Suc j)
        then show ?thesis using AB k by (simp add: char_before_Cons)
      qed
    qed
  qed
  then show ?case using Cons.IH[of "Some c"] by (simp split: option.splits)
qed

lemma re_search_Some_D:
  "re_search m prev s = Some g \<Longrightarrow>
     \<exists>k \<le> length s. m (char_before prev s k) (drop k s) = Some g
        \<and> (\<forall>j < k. m (char_before prev s j) (drop j s) = None)"
proof (induction s arbitrary: prev)
  case Nil
  then show ?case by (simp add: char_before_def)
next
  case (Cons c r)
  show ?case
  proof (cases "m prev (c # r)")
    case (Some g')
    with Cons.prems have "g' = g" by simp
    with Some have "m (char_before prev (c # r) 0) (drop 0 (c # r)) = Some g"
      by (simp add: char_before_def)
    then show ?thesis by (intro exI[of _ 0]) simp
  next
    case None
    with Cons.prems have "re_search m (Some c) r = Some g" by simp
    from Cons.IH[OF this] obtain k where k: "k \<le> length r"
      "m (char_before (Some c) r k) (drop k r) = Some g"
      "\<forall>j < k. m (char_before (Some c) r j) (drop j r) = None" by blast
    have "\<forall>j < Suc k. m (char_before prev (c # r) j) (drop j (c # r)) = None"
    proof (intro allI impI)
      fix j assume "j < Suc k"
      then show "m (char_before prev (c # r) j) (drop j (c # r)) = None"
        using None k(3) by (cases j) (simp_all add: char_before_Cons, simp add: char_before_def)
    qed
    with k(1,2) show ?thesis
      by (intro exI[of _ "Suc k"]) (simp add: char_before_Cons)
  qed
qed

lemma word_boundary_position:
  "k \<le> length s \<Longrightarrow> word_boundary U (char_before None s k) (drop k s) = boundary_at U s k"
proof -
  assume k: "k \<le> length s"
  have a: "(case char_before None s k of None \<Rightarrow> False | Some c \<Rightarrow> is_word U c)
           = (0 < k \<and> is_word U (s ! (k - 1)))"
    by (simp add: char_before_def)
  have b: "(case drop k s of [] \<Rightarrow> False | c # _ \<Rightarrow> is_word U c) = (k < length s \<and> is_word U (s ! k))"
  proof (cases "k < length s")
    case True
    then have "drop k s = s ! k # drop (Suc k) s" by (simp add: Cons_nth_drop_Suc)
    with True show ?thesis by simp
  next
    case False
    with k show ?thesis by simp
  qed
  show ?thesis unfolding word_boundary_def boundary_at_def a b ..
qed

lemma starts_with_prefix: "starts_with p s = prefix p s"
  by (induction p s rule: starts_with.induct) auto

lemma literal_scan_search:
  "(re_search (literal_pattern U (a # p)) prev s = None) = (\<not> literal_scan U a p prev s)"
proof (induction s arbitrary: prev)
  case Nil
  show ?case by (simp add: literal_pattern_def)
next
  case (Cons c r)
  show ?case using Cons.IH[of "Some c"]
    by (auto simp: literal_pattern_def starts_with_prefix split: option.splits)
qed

lemma normalize_turkish_fold: "normalize_turkish U s = map turkish_fold (str_lower U s)"
proof -
  have "(\<lambda>c. if c = 0xC7 then 0x63 else c) \<circ> (\<lambda>c. if c = 0xD6 then 0x6F else c)
          \<circ> (\<lambda>c. if c = 0x15E then 0x73 else c) \<circ> (\<lambda>c. if c = 0xDC then 0x75 else c)
          \<circ> (\<lambda>c. if c = 0x11E then 0x67 else c) \<circ> (\<lambda>c. if c = 0x130 then 0x69 else c)
          \<circ> (\<lambda>c. if c = 0xE7 then 0x63 else c) \<circ> (\<lambda>c. if c = 0xF6 then 0x6F else c)
          \<circ> (\<lambda>c. if c = 0x15F then 0x73 else c) \<circ> (\<lambda>c. if c = 0xFC then 0x75 else c)
          \<circ> (\<lambda>c. if c = 0x11F then 0x67 else c) \<circ> (\<lambda>c. if c = 0x131 then 0x69 else c)
        = turkish_fold"
    by (rule ext) (simp add: turkish_fold_def replacements_def)
  then show ?thesis
    by (simp add: normalize_turkish_def replacements_def replace_char_def comp_assoc)
qed

lemma turkish_fold_ascii: "c < 0x80 \<Longrightarrow> turkish_fold c = c"
  by (auto simp: turkish_fold_def replacements_def)

section \<open>Day, month and year tokens\<close>

lemma is_word_ascii_digit: "0x30 \<le> c \<Longrightarrow> c \<le> 0x39 \<Longrightarrow> is_word U c"
  by (simp add: is_word_def)

lemma foldl_decimal_ge: "a \<le> foldl (\<lambda>a c. 10 * a + (c - 0x30)) a (xs :: nat list)"
proof (induction xs arbitrary: a)
  case Nil
  show ?case by simp
next
  case (Cons x xs)
  have "a \<le> 10 * a + (x - 0x30)" by simp
  also have "\<dots> \<le> foldl (\<lambda>a c. 10 * a + (c - 0x30)) (10 * a + (x - 0x30)) xs" by (rule Cons.IH)
  finally show ?case by simp
qed

lemma day_token_shape:
  "is_day_token g \<longleftrightarrow>
     (\<exists>c. g = [c] \<and> 0x31 \<le> c \<and> c \<le> 0x39)
     \<or> (\<exists>c c2. g = [c, c2] \<and> (c = 0x31 \<or> c = 0x32) \<and> 0x30 \<le> c2 \<and> c2 \<le> 0x39)
     \<or> (\<exists>c2. g = [0x33, c2] \<and> (c2 = 0x30 \<or> c2 = 0x31))"
  (is "?L \<longleftrightarrow> ?R")
proof
  assume L: ?L
  show ?R
  proof (cases g)
    case Nil
    with L show ?thesis by (simp add: is_day_token_def)
  next
    case g1: (Cons c r)
    show ?thesis
    proof (cases r)
      case Nil
      with g1 L show ?thesis by (auto simp: is_day_token_def decimal_value_def)
    next
      case g2: (Cons c2 r2)
      show ?thesis
      proof (cases r2)
        case Nil
        with g1 g2 L have "0x30 < c" "c \<le> 0x39" "0x30 \<le> c2" "c2 \<le> 0x39"
          "10 * (c - 0x30) + (c2 - 0x30) \<le> 31"
          by (auto simp: is_day_token_def decimal_value_def)
        then have "(c = 0x31 \<or> c = 0x32) \<or> (c = 0x33 \<and> (c2 = 0x30 \<or> c2 = 0x31))" by arith
        with g1 g2 Nil \<open>0x30 \<le> c2\<close> \<open>c2 \<le> 0x39\<close> show ?thesis by auto
      next
        case (Cons c3 r3)
        with g1 g2 L have c: "0x30 < c" and v: "decimal_value (c # c2 # c3 # r3) \<le> 31"
          by (auto simp: is_day_token_def)
        have "10 * (10 * (c - 0x30) + (c2 - 0x30)) + (c3 - 0x30)
                \<le> decimal_value (c # c2 # c3 # r3)"
          unfolding decimal_value_def using foldl_decimal_ge[of "10 * (10 * (c - 0x30) + (c2 - 0x30)) + (c3 - 0x30)" r3]
          by simp
        with v c show ?thesis by arith
      qed
    qed
  qed
next
  assume ?R
  then show ?L by (auto simp: is_day_token_def decimal_value_def)
qed

lemma day_pattern_Some_iff:
  "day_pattern U prev rest = Some g \<longleftrightarrow>
     word_boundary U prev rest \<and> is_day_token g \<and> prefix g rest
     \<and> word_boundary U (Some (last g)) (drop (length g) rest)"
  (is "?L \<longleftrightarrow> ?R")
proof
  assume ?L
  then show ?R
    unfolding day_token_shape
    by (auto simp: day_pattern_def split: if_splits list.splits)
next
  assume R: ?R
  then have wb: "word_boundary U prev rest" and pre: "prefix g rest"
    and wa: "word_boundary U (Some (last g)) (drop (length g) rest)" and tok: "is_day_token g"
    by simp_all
  from tok consider
    (one) c where "g = [c]" "0x31 \<le> c" "c \<le> 0x39"
  | (two) c c2 where "g = [c, c2]" "c = 0x31 \<or> c = 0x32" "0x30 \<le> c2" "c2 \<le> 0x39"
  | (three) c2 where "g = [0x33, c2]" "c2 = 0x30 \<or> c2 = 0x31"
    unfolding day_token_shape by blast
  then show ?L
  proof cases
    case one
    with pre obtain r where "rest = c # r" by (auto simp: prefix_def)
    with one wb wa show ?thesis by (simp add: day_pattern_def)
  next
    case two
    with pre obtain r where rest: "rest = c # c2 # r" by (auto simp: prefix_def)
    have "is_word U c" "is_word U c2" using two by (auto intro: is_word_ascii_digit)
    then have "\<not> word_boundary U (Some c) (c2 # r)" by (simp add: word_boundary_def)
    with two rest wb wa show ?thesis by (simp add: day_pattern_def)
  next
    case three
    with pre obtain r where rest: "rest = 0x33 # c2 # r" by (auto simp: prefix_def)
    have "is_word U 0x33" "is_word U c2" using three by (auto intro: is_word_ascii_digit)
    then have "\<not> word_boundary U (Some 0x33) (c2 # r)" by (simp add: word_boundary_def)
    with three rest wb wa show ?thesis by (auto simp: day_pattern_def)
  qed
qed

lemma py_int_day_token: "is_day_token g \<Longrightarrow> py_int U g = int (decimal_value g)"
  unfolding day_token_shape
  by (auto simp: py_int_def decimal_value_def digit_value_def)

lemma prefix_substring:
  assumes k: "k \<le> length s"
  shows "prefix g (drop k s) \<longleftrightarrow> k + length g \<le> length s \<and> substring s k (length g) = g"
proof
  assume "prefix g (drop k s)"
  then obtain zs where zs: "drop k s = g @ zs" by (auto simp: prefix_def)
  then have "length (drop k s) = length g + length zs" by simp
  then have "k + length g \<le> length s" using k by simp
  moreover have "take (length g) (drop k s) = g" using zs by simp
  ultimately show "k + length g \<le> length s \<and> substring s k (length g) = g"
    by (simp add: substring_def)
next
  assume a: "k + length g \<le> length s \<and> substring s k (length g) = g"
  then have "take (length g) (drop k s) = g" by (simp add: substring_def)
  then show "prefix g (drop k s)" by (metis take_is_prefix)
qed

lemma last_substring:
  assumes "substring s k (length g) = g" "g \<noteq> []" "k + length g \<le> length s"
  shows "char_before prev s (k + length g) = Some (last g)"
proof -
  have "last g = g ! (length g - 1)" using assms(2) by (simp add: last_conv_nth)
  also have "\<dots> = take (length g) (drop k s) ! (length g - 1)"
    using assms(1) by (simp add: substring_def)
  also have "\<dots> = s ! (k + length g - 1)"
  proof -
    have "0 < length g" using assms(2) by simp
    then have "k + (length g - 1) = k + length g - 1" by arith
    moreover have "length g - 1 < length g" using \<open>0 < length g\<close> by arith
    ultimately show ?thesis using assms(3) by simp
  qed
  finally show ?thesis using assms(2) by (simp add: char_before_def)
qed

lemma day_pattern_position:
  assumes k: "k \<le> length s"
  shows "day_pattern U (char_before None s k) (drop k s) = Some g \<longleftrightarrow>
           day_token_at U s k (length g) \<and> substring s k (length g) = g"
proof -
  have ne: "is_day_token g \<Longrightarrow> g \<noteq> []" by (auto simp: is_day_token_def)
  show ?thesis
  proof
    assume "day_pattern U (char_before None s k) (drop k s) = Some g"
    then have wb: "word_boundary U (char_before None s k) (drop k s)" and tok: "is_day_token g"
      and pre: "prefix g (drop k s)"
      and wa: "word_boundary U (Some (last g)) (drop (length g) (drop k s))"
      by (simp_all add: day_pattern_Some_iff)
    from pre have le: "k + length g \<le> length s" and sub: "substring s k (length g) = g"
      by (simp_all add: prefix_substring[OF k])
    have "word_boundary U (char_before None s (k + length g)) (drop (k + length g) s)"
      using wa last_substring[OF sub ne[OF tok] le, of None] by (simp add: add.commute)
    then have "boundary_at U s (k + length g)" using le by (simp add: word_boundary_position)
    moreover have "boundary_at U s k" using wb k by (simp add: word_boundary_position)
    ultimately show "day_token_at U s k (length g) \<and> substring s k (length g) = g"
      using le sub tok by (simp add: day_token_at_def token_at_def)
  next
    assume a: "day_token_at U s k (length g) \<and> substring s k (length g) = g"
    then have sub: "substring s k (length g) = g" by simp
    from a have "is_day_token (substring s k (length g))" unfolding day_token_at_def by blast
    then have tok: "is_day_token g" by (simp only: sub)
    from a have le: "k + length g \<le> length s"
      and b1: "boundary_at U s k" and b2: "boundary_at U s (k + length g)"
      by (simp_all add: day_token_at_def token_at_def)
    have "word_boundary U (char_before None s (k + length g)) (drop (k + length g) s)"
      using b2 le by (simp add: word_boundary_position)
    then have "word_boundary U (Some (last g)) (drop (length g) (drop k s))"
      using last_substring[OF sub ne[OF tok] le, of None] by (simp add: add.commute)
    moreover have "word_boundary U (char_before None s k) (drop k s)"
      using b1 k by (simp add: word_boundary_position)
    moreover have "prefix g (drop k s)" using le sub by (simp add: prefix_substring[OF k])
    ultimately show "day_pattern U (char_before None s k) (drop k s) = Some g"
      using tok by (simp add: day_pattern_Some_iff)
  qed
qed

lemma day_search_leftmost:
  assumes "re_search (day_pattern U) None s = Some g"
  shows "\<exists>i. day_token_at U s i (length g) \<and> substring s i (length g) = g
            \<and> (\<forall>j < i. \<forall>m. \<not> day_token_at U s j m)"
proof -
  from re_search_Some_D[OF assms] obtain k where k: "k \<le> length s"
    and hit: "day_pattern U (char_before None s k) (drop k s) = Some g"
    and miss: "\<forall>j < k. day_pattern U (char_before None s j) (drop j s) = None" by blast
  have "\<not> day_token_at U s j m" if j: "j < k" for j m
  proof
    assume t: "day_token_at U s j m"
    then have le: "j + m \<le> length s" by (simp add: day_token_at_def token_at_def)
    then have len: "length (substring s j m) = m" by (simp add: substring_def)
    from j k have "j \<le> length s" by simp
    from day_pattern_position[OF this, of U "substring s j m"] t len
    have "day_pattern U (char_before None s j) (drop j s) = Some (substring s j m)" by simp
    with miss j show False by simp
  qed
  moreover from hit k have "day_token_at U s k (length g) \<and> substring s k (length g) = g"
    by (simp add: day_pattern_position)
  ultimately show ?thesis by blast
qed

lemma is_earthquake_baslik_Some_iff:
  "is_earthquake_baslik U now t = Some pm \<longleftrightarrow>
     (\<exists>dg mn m yg p.
        re_search (day_pattern U) None t = Some dg
        \<and> find_month MONTHS (str_lower U t) = Some (mn, m)
        \<and> re_search (year_pattern U) None t = Some yg
        \<and> is_date_current now (py_int U dg) m (py_int U yg) 1
        \<and> find_province U PROVINCES (str_lower U t) (normalize_turkish U t) = Some p
        \<and> pm = \<lparr>day = py_int U dg, month = m, month_name = mn, year = py_int U yg, province = p,
                 has_earthquake_keyword = list_ex (\<lambda>kw. is_substring kw (str_lower U t)) EARTHQUAKE_KEYWORDS,
                 confidence = (if list_ex (\<lambda>kw. is_substring kw (str_lower U t)) EARTHQUAKE_KEYWORDS
                               then High else Medium)\<rparr>)"
  by (auto simp: is_earthquake_baslik_def Let_def split: option.splits prod.splits)

lemma is_substring_occurs_in: "is_substring sub s \<longleftrightarrow> occurs_in sub s"
proof (induction s)
  case Nil
  show ?case by (auto simp: occurs_in_def substring_def)
next
  case (Cons c r)
  have "occurs_in sub (c # r) \<longleftrightarrow> prefix sub (c # r) \<or> occurs_in sub r"
  proof
    assume "occurs_in sub (c # r)"
    then obtain i where i: "i + length sub \<le> length (c # r)" "substring (c # r) i (length sub) = sub"
      by (auto simp: occurs_in_def)
    show "prefix sub (c # r) \<or> occurs_in sub r"
    proof (cases i)
      case 0
      with i have "take (length sub) (c # r) = sub" by (simp add: substring_def)
      then have "prefix sub (c # r)" by (metis take_is_prefix)
      then show ?thesis ..
    next
      case (Suc j)
      with i have "j + length sub \<le> length r" "substring r j (length sub) = sub"
        by (simp_all add: substring_def)
      then have "occurs_in sub r" unfolding occurs_in_def by (intro exI[of _ j]) simp
      then show ?thesis ..
    qed
  next
    assume "prefix sub (c # r) \<or> occurs_in sub r"
    then show "occurs_in sub (c # r)"
    proof
      assume "prefix sub (c # r)"
      then have "0 + length sub \<le> length (c # r) \<and> substring (c # r) 0 (length sub) = sub"
        using prefix_substring[of 0 "c # r" sub] by simp
      then show ?thesis unfolding occurs_in_def by (intro exI[of _ 0]) simp
    next
      assume "occurs_in sub r"
      then obtain i where "i + length sub \<le> length r" "substring r i (length sub) = sub"
        by (auto simp: occurs_in_def)
      then have "Suc i \<le> length (c # r) \<and> Suc i + length sub \<le> length (c # r)
                 \<and> substring (c # r) (Suc i) (length sub) = sub"
        by (simp add: substring_def)
      then show ?thesis unfolding occurs_in_def by (intro exI[of _ "Suc i"])
    qed
  qed
  with Cons.IH show ?case by simp
qed

lemma find_month_Some_D:
  "find_month ms s = Some (mn, m) \<Longrightarrow> (mn, m) \<in> set ms \<and> is_substring mn s"
  by (induction ms) (auto split: if_splits)

lemma find_month_None_iff:
  "find_month ms s = None \<longleftrightarrow> (\<forall>entry \<in> set ms. \<not> is_substring (fst entry) s)"
proof (induction ms)
  case Nil
  show ?case by simp
next
  case (Cons e ms)
  obtain mn m where e: "e = (mn, m)" by (cases e)
  show ?case using Cons.IH by (simp add: e)
qed

lemma year_pattern_position:
  assumes k: "k \<le> length s" and hit: "year_pattern U (char_before None s k) (drop k s) = Some g"
  shows "token_at U s k 4 \<and> is_year_token U (substring s k 4) \<and> substring s k 4 = g"
proof -
  from hit have wb: "word_boundary U (char_before None s k) (drop k s)"
    by (auto simp: year_pattern_def split: if_splits)
  from hit obtain a b c d r where rest: "drop k s = a # b # c # d # r"
    and g: "g = [a, b, c, d]" and cond: "a = 0x32" "b = 0x30" "is_digit U c" "is_digit U d"
    and wa: "word_boundary U (Some d) r"
    by (auto simp: year_pattern_def split: if_splits list.splits)
  have pre: "prefix g (drop k s)" using rest g by simp
  then have le: "k + length g \<le> length s" and sub: "substring s k (length g) = g"
    by (simp_all add: prefix_substring[OF k])
  have len: "length g = 4" using g by simp
  have "drop (length g) (drop k s) = r" using rest g by simp
  moreover have "last g = d" using g by simp
  ultimately have "word_boundary U (char_before None s (k + length g)) (drop (k + length g) s)"
    using wa last_substring[OF sub _ le, of None] g by (simp add: add.commute)
  then have "boundary_at U s (k + 4)" using le len by (simp add: word_boundary_position)
  moreover have "boundary_at U s k" using wb k by (simp add: word_boundary_position)
  moreover have "is_year_token U g" using g cond by (simp add: is_year_token_def)
  ultimately show ?thesis using le sub len by (simp add: token_at_def)
qed

lemma day_search_has_token:
  assumes "re_search (day_pattern U) None s = Some g"
  shows "has_day_token U s"
proof -
  from day_search_leftmost[OF assms] obtain i where i: "day_token_at U s i (length g)" by blast
  then have "i + length g \<le> length s" by (simp add: day_token_at_def token_at_def)
  then have "i \<le> length s" "length g \<le> length s" by simp_all
  with i show ?thesis unfolding has_day_token_def by blast
qed

lemma year_search_has_token:
  assumes "re_search (year_pattern U) None s = Some g"
  shows "has_year_token U s"
proof -
  from re_search_Some_D[OF assms] obtain k where k: "k \<le> length s"
    and hit: "year_pattern U (char_before None s k) (drop k s) = Some g" by blast
  from year_pattern_position[OF k hit] k show ?thesis unfolding has_year_token_def by blast
qed

lemma find_month_has_spelling:
  assumes "find_month MONTHS (str_lower U s) = Some (mn, m)"
  shows "has_month_spelling U s"
proof -
  from find_month_Some_D[OF assms] have "(mn, m) \<in> set MONTHS" "occurs_in mn (str_lower U s)"
    by (simp_all add: is_substring_occurs_in)
  then show ?thesis unfolding has_month_spelling_def by force
qed

section \<open>Provinces and keywords\<close>

lemma literal_pattern_position:
  assumes k: "k \<le> length s"
  shows "literal_pattern U p (char_before None s k) (drop k s) \<noteq> None \<longleftrightarrow>
           token_at U s k (length p) \<and> substring s k (length p) = p"
proof (cases "p = []")
  case True
  then show ?thesis using k
    by (simp add: literal_pattern_def token_at_def substring_def word_boundary_position)
next
  case False
  show ?thesis
  proof
    assume "literal_pattern U p (char_before None s k) (drop k s) \<noteq> None"
    then have wb: "word_boundary U (char_before None s k) (drop k s)" and pre: "prefix p (drop k s)"
      and wa: "word_boundary U (Some (last p)) (drop (length p) (drop k s))"
      using False by (auto simp: literal_pattern_def split: if_splits)
    from pre have le: "k + length p \<le> length s" and sub: "substring s k (length p) = p"
      by (simp_all add: prefix_substring[OF k])
    have "word_boundary U (char_before None s (k + length p)) (drop (k + length p) s)"
      using wa last_substring[OF sub False le, of None] by (simp add: add.commute)
    then have "boundary_at U s (k + length p)" using le by (simp add: word_boundary_position)
    moreover have "boundary_at U s k" using wb k by (simp add: word_boundary_position)
    ultimately show "token_at U s k (length p) \<and> substring s k (length p) = p"
      using le sub by (simp add: token_at_def)
  next
    assume a: "token_at U s k (length p) \<and> substring s k (length p) = p"
    then have le: "k + length p \<le> length s" and sub: "substring s k (length p) = p"
      and b1: "boundary_at U s k" and b2: "boundary_at U s (k + length p)"
      by (simp_all add: token_at_def)
    have "word_boundary U (char_before None s (k + length p)) (drop (k + length p) s)"
      using b2 le by (simp add: word_boundary_position)
    then have "word_boundary U (Some (last p)) (drop (length p) (drop k s))"
      using last_substring[OF sub False le, of None] by (simp add: add.commute)
    moreover have "word_boundary U (char_before None s k) (drop k s)"
      using b1 k by (simp add: word_boundary_position)
    moreover have "prefix p (drop k s)" using le sub by (simp add: prefix_substring[OF k])
    ultimately show "literal_pattern U p (char_before None s k) (drop k s) \<noteq> None"
      using False by (simp add: literal_pattern_def)
  qed
qed

lemma literal_search_whole_word:
  "re_search (literal_pattern U p) None s = None \<longleftrightarrow> \<not> whole_word_in U p s"
proof
  assume none: "re_search (literal_pattern U p) None s = None"
  show "\<not> whole_word_in U p s"
  proof
    assume "whole_word_in U p s"
    then obtain k where k: "k \<le> length s"
      and tok: "token_at U s k (length p) \<and> substring s k (length p) = p"
      unfolding whole_word_in_def by auto
    from tok have "literal_pattern U p (char_before None s k) (drop k s) \<noteq> None"
      by (simp only: literal_pattern_position[OF k])
    moreover from none have "\<forall>k \<le> length s. literal_pattern U p (char_before None s k) (drop k s) = None"
      by (simp only: re_search_None_iff)
    ultimately show False using k by simp
  qed
next
  assume no: "\<not> whole_word_in U p s"
  have "literal_pattern U p (char_before None s k) (drop k s) = None" if k: "k \<le> length s" for k
  proof (rule ccontr)
    assume "literal_pattern U p (char_before None s k) (drop k s) \<noteq> None"
    then have "token_at U s k (length p) \<and> substring s k (length p) = p"
      by (simp only: literal_pattern_position[OF k])
    with k have "whole_word_in U p s" unfolding whole_word_in_def by (intro exI[of _ k]) simp
    with no show False ..
  qed
  then have "\<forall>k \<le> length s. literal_pattern U p (char_before None s k) (drop k s) = None" by simp
  then show "re_search (literal_pattern U p) None s = None" by (simp only: re_search_None_iff)
qed

lemma find_province_None_iff:
  "find_province U ps tlo tno = None \<longleftrightarrow>
     (\<forall>p \<in> set ps. \<not> whole_word_in U p tlo \<and> \<not> whole_word_in U (normalize_turkish U p) tno)"
proof (induction ps)
  case Nil
  show ?case by simp
next
  case (Cons p ps)
  show ?case using Cons.IH
    by (simp add: Let_def literal_search_whole_word del: re_search.simps)
qed

lemma find_province_names:
  "names_province U t \<longleftrightarrow>
     find_province U PROVINCES (str_lower U t) (normalize_turkish U t) \<noteq> None"
  unfolding names_province_def find_province_None_iff by blast

lemma keyword_check: "list_ex (\<lambda>kw. is_substring kw (str_lower U t)) EARTHQUAKE_KEYWORDS = has_keyword U t"
  by (simp add: has_keyword_def list_ex_iff is_substring_occurs_in)

lemma boundary_at_map:
  assumes "\<And>c. is_word U (f c) = is_word U c" and "i \<le> length s"
  shows "boundary_at U (map f s) i = boundary_at U s i"
proof -
  have a: "(0 < i \<and> is_word U (map f s ! (i - 1))) = (0 < i \<and> is_word U (s ! (i - 1)))"
  proof (cases "0 < i")
    case True
    with assms(2) have "i - 1 < length s" by arith
    then show ?thesis by (simp add: assms(1))
  next
    case False
    then show ?thesis by simp
  qed
  have b: "(i < length (map f s) \<and> is_word U (map f s ! i)) = (i < length s \<and> is_word U (s ! i))"
    by (cases "i < length s") (simp_all add: assms(1))
  show ?thesis unfolding boundary_at_def a b ..
qed

lemma token_at_map:
  assumes "\<And>c. is_word U (f c) = is_word U c"
  shows "token_at U (map f s) i n = token_at U s i n"
proof (cases "i + n \<le> length s")
  case True
  then have "i \<le> length s" "i + n \<le> length s" by simp_all
  then show ?thesis by (simp add: token_at_def boundary_at_map[OF assms])
next
  case False
  then show ?thesis by (simp add: token_at_def)
qed

lemma substring_map: "substring (map f s) i n = map f (substring s i n)"
  by (simp add: substring_def take_map drop_map)

lemma whole_word_in_map:
  assumes "\<And>c. is_word U (f c) = is_word U c" and "whole_word_in U p s"
  shows "whole_word_in U (map f p) (map f s)"
proof -
  from assms(2) obtain i where i: "i \<le> length s" "token_at U s i (length p)"
    "substring s i (length p) = p" unfolding whole_word_in_def by blast
  have "token_at U (map f s) i (length (map f p))" using i(2) by (simp add: token_at_map[OF assms(1)])
  moreover have "substring (map f s) i (length (map f p)) = map f p"
    using i(3) by (simp add: substring_map)
  ultimately show ?thesis using i(1) unfolding whole_word_in_def by (intro exI[of _ i]) simp
qed

lemma find_province_by_normal_form:
  assumes w: "\<And>c. is_word U (turkish_fold c) = is_word U c"
    and lo: "\<forall>p \<in> set ps. str_lower U p = p"
    and eq: "map turkish_fold s1 = map turkish_fold s2"
  shows "find_province U ps s1 (map turkish_fold s1) = find_province U ps s2 (map turkish_fold s2)"
  using lo
proof (induction ps)
  case Nil
  show ?case by simp
next
  case (Cons p ps)
  then have p: "normalize_turkish U p = map turkish_fold p" by (simp add: normalize_turkish_fold)
  have c: "(whole_word_in U p s \<or> whole_word_in U (map turkish_fold p) (map turkish_fold s))
           = whole_word_in U (map turkish_fold p) (map turkish_fold s)" for s
    using whole_word_in_map[OF w, of p s] by blast
  from Cons have IH: "find_province U ps s1 (map turkish_fold s1) = find_province U ps s2 (map turkish_fold s2)"
    by simp
  have step: "find_province U (p # ps) s (map turkish_fold s) =
      (if whole_word_in U (map turkish_fold p) (map turkish_fold s) then Some p
       else find_province U ps s (map turkish_fold s))" for s
    by (simp add: Let_def p literal_search_whole_word c del: re_search.simps)
  show ?case unfolding step using IH eq by simp
qed

text \<open>
  The province found depends on the title only through its normalised form, provided
  the substitution of the normaliser maps word characters to word characters and
  non-word characters to non-word characters, and the entries of \<open>PROVINCES\<close> are their
  own lowercase forms (both hold for the Unicode tables of CPython). Two titles with the
  same normalised form that both match name the same province: a title that spells a
  province with dotless i, soft g, u or o with diaeresis, s or c with cedilla and a title
  that spells it with the plain ASCII letters get the same key.
\<close>

theorem same_normal_form_same_province:
  assumes "\<And>c. is_word U (turkish_fold c) = is_word U c"
    and "\<forall>p \<in> set PROVINCES. str_lower U p = p"
    and "normalize_turkish U t1 = normalize_turkish U t2"
    and "is_earthquake_baslik U now1 t1 = Some a"
    and "is_earthquake_baslik U now2 t2 = Some b"
  shows "province a = province b"
proof -
  from assms(4) have a: "find_province U PROVINCES (str_lower U t1) (normalize_turkish U t1) = Some (province a)"
    unfolding is_earthquake_baslik_Some_iff by auto
  from assms(5) have b: "find_province U PROVINCES (str_lower U t2) (normalize_turkish U t2) = Some (province b)"
    unfolding is_earthquake_baslik_Some_iff by auto
  from assms(3) have "map turkish_fold (str_lower U t1) = map turkish_fold (str_lower U t2)"
    by (simp add: normalize_turkish_fold)
  from find_province_by_normal_form[OF assms(1,2) this] a b show ?thesis
    by (simp add: normalize_turkish_fold)
qed

section \<open>The running example, evaluated\<close>

lemma example_title_val:
  "example_title = [50, 50, 32, 101, 107, 105, 109, 32, 50, 48, 50, 53, 32, 97, 100, 97, 110, 97, 32,
     100, 101, 112, 114, 101, 109, 105]"
  by (simp add: example_title_def ascii_def)

lemma example_lower: "str_lower latin_db example_title = example_title"
  by (simp add: example_title_val str_lower_def ascii_lower_def)

lemma example_normalized: "normalize_turkish latin_db example_title = example_title"
  unfolding normalize_turkish_fold example_lower
  by (simp add: example_title_val turkish_fold_ascii)

lemma example_day: "re_search (day_pattern latin_db) None example_title = Some [50, 50]"
  by (simp add: example_title_val day_pattern_def word_boundary_def is_word_def)

lemma example_month: "find_month MONTHS (str_lower latin_db example_title) = Some (ascii ''ekim'', 10)"
  unfolding example_lower by (simp add: example_title_val MONTHS_def ascii_def)

lemma example_year: "re_search (year_pattern latin_db) None example_title = Some [50, 48, 50, 53]"
  by (simp add: example_title_val year_pattern_def word_boundary_def is_word_def is_digit_def
        digit_value_def)

lemma example_province:
  "find_province latin_db PROVINCES (str_lower latin_db example_title)
     (normalize_turkish latin_db example_title) = Some (ascii ''adana'')"
  unfolding example_lower example_normalized
  by (simp add: PROVINCES_def example_title_val ascii_def literal_scan_search word_boundary_def
        is_word_def del: re_search.simps)

lemma example_keyword:
  "list_ex (\<lambda>kw. is_substring kw (str_lower latin_db example_title)) EARTHQUAKE_KEYWORDS"
  unfolding example_lower by (simp add: example_title_val EARTHQUAKE_KEYWORDS_def ascii_def)

lemma example_day_int: "py_int latin_db [50, 50] = 22"
  by (simp add: py_int_def digit_value_def)

lemma example_year_int: "py_int latin_db [50, 48, 50, 53] = 2025"
  by (simp add: py_int_def digit_value_def)

lemma example_date: "make_date 2025 10 22 = Some example_now"
  by (simp add: make_date_def days_in_month_def example_now_def)

lemma toordinal_example_now: "toordinal example_now = 739546"
  by (simp add: example_now_def toordinal_def days_before_year_def days_before_month_def
        days_in_month_def is_leap_def upt_rec)

lemma toordinal_example_later: "toordinal example_later = 739549"
  by (simp add: example_later_def toordinal_def days_before_year_def days_before_month_def
        days_in_month_def is_leap_def upt_rec)

lemma example_detection:
  "is_earthquake_baslik latin_db now example_title =
     (if \<bar>739546 - toordinal now\<bar> \<le> 1 then Some example_match else None)"
  by (simp add: is_earthquake_baslik_def example_day example_month example_year example_province
        example_keyword example_day_int example_year_int is_date_current_def example_date
        toordinal_example_now example_match_def)

lemma example_detected: "is_earthquake_baslik latin_db example_now example_title = Some example_match"
  by (simp add: example_detection toordinal_example_now)

lemma example_rejected_later: "is_earthquake_baslik latin_db example_later example_title = None"
  by (simp add: example_detection toordinal_example_later)

subsection \<open>Two titles seen on 3 October 2025\<close>

lemma padded_day_title_val:
  "padded_day_title = [48, 55, 32, 101, 107, 105, 109, 32, 50, 48, 50, 53, 32, 115, 97, 97, 116, 32, 51,
     32, 97, 100, 97, 110, 97, 32, 100, 101, 112, 114, 101, 109, 105]"
  by (simp add: padded_day_title_def ascii_def)

lemma two_numbers_title_val:
  "two_numbers_title = [51, 32, 97, 114, 116, 99, 105, 32, 52, 32, 101, 107, 105, 109, 32, 50, 48, 50,
     53, 32, 97, 100, 97, 110, 97, 32, 100, 101, 112, 114, 101, 109, 105]"
  by (simp add: two_numbers_title_def ascii_def)

lemma october_third_day_int: "py_int latin_db [51] = 3"
  by (simp add: py_int_def digit_value_def)

lemma october_third_date: "make_date 2025 10 3 = Some october_third"
  by (simp add: make_date_def days_in_month_def october_third_def)

lemma toordinal_october_third: "toordinal october_third = 739527"
  by (simp add: october_third_def toordinal_def days_before_year_def days_before_month_def
        days_in_month_def is_leap_def upt_rec)

lemma toordinal_october_seventh: "toordinal october_seventh = 739531"
  by (simp add: october_seventh_def toordinal_def days_before_year_def days_before_month_def
        days_in_month_def is_leap_def upt_rec)

lemma padded_day_detection:
  "is_earthquake_baslik latin_db now padded_day_title =
     (if \<bar>739527 - toordinal now\<bar> \<le> 1 then Some october_third_match else None)"
proof -
  have lo: "str_lower latin_db padded_day_title = padded_day_title"
    by (simp add: padded_day_title_val str_lower_def ascii_lower_def)
  have no: "normalize_turkish latin_db padded_day_title = padded_day_title"
    unfolding normalize_turkish_fold lo by (simp add: padded_day_title_val turkish_fold_ascii)
  have dy: "re_search (day_pattern latin_db) None padded_day_title = Some [51]"
    by (simp add: padded_day_title_val day_pattern_def word_boundary_def is_word_def)
  have mo: "find_month MONTHS padded_day_title = Some (ascii ''ekim'', 10)"
    by (simp add: padded_day_title_val MONTHS_def ascii_def)
  have yr: "re_search (year_pattern latin_db) None padded_day_title = Some [50, 48, 50, 53]"
    by (simp add: padded_day_title_val year_pattern_def word_boundary_def is_word_def is_digit_def
          digit_value_def)
  have pr: "find_province latin_db PROVINCES padded_day_title padded_day_title = Some (ascii ''adana'')"
    by (simp add: PROVINCES_def padded_day_title_val ascii_def literal_scan_search word_boundary_def
          is_word_def del: re_search.simps)
  have kw: "list_ex (\<lambda>kw. is_substring kw padded_day_title) EARTHQUAKE_KEYWORDS"
    by (simp add: padded_day_title_val EARTHQUAKE_KEYWORDS_def ascii_def)
  show ?thesis
    by (simp add: is_earthquake_baslik_def lo no dy mo yr pr kw october_third_day_int
          example_year_int is_date_current_def october_third_date toordinal_october_third
          october_third_match_def)
qed

lemma two_numbers_detection:
  "is_earthquake_baslik latin_db now two_numbers_title =
     (if \<bar>739527 - toordinal now\<bar> \<le> 1 then Some october_third_match else None)"
proof -
  have lo: "str_lower latin_db two_numbers_title = two_numbers_title"
    by (simp add: two_numbers_title_val str_lower_def ascii_lower_def)
  have no: "normalize_turkish latin_db two_numbers_title = two_numbers_title"
    unfolding normalize_turkish_fold lo by (simp add: two_numbers_title_val turkish_fold_ascii)
  have dy: "re_search (day_pattern latin_db) None two_numbers_title = Some [51]"
    by (simp add: two_numbers_title_val day_pattern_def word_boundary_def is_word_def)
  have mo: "find_month MONTHS two_numbers_title = Some (ascii ''ekim'', 10)"
    by (simp add: two_numbers_title_val MONTHS_def ascii_def)
  have yr: "re_search (year_pattern latin_db) None two_numbers_title = Some [50, 48, 50, 53]"
    by (simp add: two_numbers_title_val year_pattern_def word_boundary_def is_word_def is_digit_def
          digit_value_def)
  have pr: "find_province latin_db PROVINCES two_numbers_title two_numbers_title = Some (ascii ''adana'')"
    by (simp add: PROVINCES_def two_numbers_title_val ascii_def literal_scan_search word_boundary_def
          is_word_def del: re_search.simps)
  have kw: "list_ex (\<lambda>kw. is_substring kw two_numbers_title) EARTHQUAKE_KEYWORDS"
    by (simp add: two_numbers_title_val EARTHQUAKE_KEYWORDS_def ascii_def)
  show ?thesis
    by (simp add: is_earthquake_baslik_def lo no dy mo yr pr kw october_third_day_int
          example_year_int is_date_current_def october_third_date toordinal_october_third
          october_third_match_def)
qed

lemma two_numbers_detected:
  "is_earthquake_baslik latin_db october_third two_numbers_title = Some october_third_match"
  by (simp add: two_numbers_detection toordinal_october_third)

lemma padded_day_range_token:
  "range_token_at latin_db padded_day_title 0 2"
  "py_int latin_db (substring padded_day_title 0 2) = 7"
  by (simp_all add: range_token_at_def token_at_def boundary_at_def in_day_range_def substring_def
        padded_day_title_val is_word_def is_digit_def digit_value_def py_int_def)

lemma two_numbers_day_tokens:
  "day_token_at latin_db two_numbers_title 0 1"
  "day_token_at latin_db two_numbers_title 8 1"
  "decimal_value (substring two_numbers_title 0 1) = 3"
  "decimal_value (substring two_numbers_title 8 1) = 4"
  by (simp_all add: day_token_at_def token_at_def boundary_at_def is_day_token_def substring_def
        two_numbers_title_val is_word_def decimal_value_def)

subsection \<open>The two titles of Hakkari\<close>

lemma hakkari_folded_val:
  "hakkari_folded = [50, 50, 32, 101, 107, 105, 109, 32, 50, 48, 50, 53, 32, 104, 97, 107, 107, 97, 114,
     105, 32, 100, 101, 112, 114, 101, 109, 105]"
  by (simp add: hakkari_folded_def ascii_def)

lemma hakkari_accented_val:
  "hakkari_accented = [50, 50, 32, 101, 107, 105, 109, 32, 50, 48, 50, 53, 32, 104, 97, 107, 107, 226,
     114, 105, 32, 100, 101, 112, 114, 101, 109, 105]"
  by (simp add: hakkari_accented_def ascii_def)

lemmas province_eval = PROVINCES_def ascii_def Let_def normalize_turkish_fold str_lower_def
  ascii_lower_def latin_db_def latin_lower_def turkish_fold_def replacements_def literal_scan_search
  word_boundary_def is_word_def latin_alnum_def

lemma hakkari_folded_province:
  "find_province latin_db PROVINCES hakkari_folded hakkari_folded = Some (ascii ''hakkari'')"
  unfolding hakkari_folded_val by (simp add: province_eval del: re_search.simps)

lemma hakkari_accented_province:
  "find_province latin_db PROVINCES hakkari_accented hakkari_accented
     = Some (ascii ''hakk'' @ [0xE2] @ ascii ''ri'')"
  unfolding hakkari_accented_val by (simp add: province_eval del: re_search.simps)

lemma hakkari_folded_detected:
  "is_earthquake_baslik latin_db example_now hakkari_folded = Some hakkari_folded_match"
proof -
  have lo: "str_lower latin_db hakkari_folded = hakkari_folded"
    by (simp add: hakkari_folded_val str_lower_def ascii_lower_def)
  have no: "normalize_turkish latin_db hakkari_folded = hakkari_folded"
    unfolding normalize_turkish_fold lo by (simp add: hakkari_folded_val turkish_fold_ascii)
  have dy: "re_search (day_pattern latin_db) None hakkari_folded = Some [50, 50]"
    by (simp add: hakkari_folded_val day_pattern_def word_boundary_def is_word_def)
  have mo: "find_month MONTHS hakkari_folded = Some (ascii ''ekim'', 10)"
    by (simp add: hakkari_folded_val MONTHS_def ascii_def)
  have yr: "re_search (year_pattern latin_db) None hakkari_folded = Some [50, 48, 50, 53]"
    by (simp add: hakkari_folded_val year_pattern_def word_boundary_def is_word_def is_digit_def
          digit_value_def)
  have kw: "list_ex (\<lambda>kw. is_substring kw hakkari_folded) EARTHQUAKE_KEYWORDS"
    by (simp add: hakkari_folded_val EARTHQUAKE_KEYWORDS_def ascii_def)
  show ?thesis
    by (simp add: is_earthquake_baslik_def lo no dy mo yr kw hakkari_folded_province
          example_day_int example_year_int is_date_current_def example_date toordinal_example_now
          hakkari_folded_match_def)
qed

lemma hakkari_accented_detected:
  "is_earthquake_baslik latin_db example_now hakkari_accented = Some hakkari_accented_match"
proof -
  have lo: "str_lower latin_db hakkari_accented = hakkari_accented"
    by (simp add: hakkari_accented_val str_lower_def latin_db_def latin_lower_def)
  have no: "normalize_turkish latin_db hakkari_accented = hakkari_accented"
    unfolding normalize_turkish_fold lo
    by (simp add: hakkari_accented_val turkish_fold_def replacements_def)
  have dy: "re_search (day_pattern latin_db) None hakkari_accented = Some [50, 50]"
    by (simp add: hakkari_accented_val day_pattern_def word_boundary_def is_word_def)
  have mo: "find_month MONTHS hakkari_accented = Some (ascii ''ekim'', 10)"
    by (simp add: hakkari_accented_val MONTHS_def ascii_def)
  have yr: "re_search (year_pattern latin_db) None hakkari_accented = Some [50, 48, 50, 53]"
    by (simp add: hakkari_accented_val year_pattern_def word_boundary_def is_word_def is_digit_def
          digit_value_def)
  have kw: "list_ex (\<lambda>kw. is_substring kw hakkari_accented) EARTHQUAKE_KEYWORDS"
    by (simp add: hakkari_accented_val EARTHQUAKE_KEYWORDS_def ascii_def)
  show ?thesis
    by (simp add: is_earthquake_baslik_def lo no dy mo yr kw hakkari_accented_province
          example_day_int example_year_int is_date_current_def example_date toordinal_example_now
          hakkari_accented_match_def)
qed

section \<open>The detector\<close>

text \<open>
  C1. A title from which a valid calendar date is extracted, and whose date is more than
  one day away from the current date, gives no match, whatever province or keyword it
  holds. The extracted date is the one the detector builds: the day and year groups of
  the two searches and the number of the month spelling found.
\<close>

theorem temporal_filter_dominates:
  assumes "re_search (day_pattern U) None t = Some day_group"
    and "find_month MONTHS (str_lower U t) = Some (mname, m)"
    and "re_search (year_pattern U) None t = Some year_group"
    and "make_date (py_int U year_group) m (py_int U day_group) = Some extracted"
    and "\<bar>toordinal extracted - toordinal now\<bar> > 1"
  shows "is_earthquake_baslik U now t = None"
  using assms by (simp add: is_earthquake_baslik_def is_date_current_def Let_def)

theorem temporal_filter_dominates_witness:
  "re_search (day_pattern latin_db) None example_title = Some [50, 50]
   \<and> find_month MONTHS (str_lower latin_db example_title) = Some (ascii ''ekim'', 10)
   \<and> re_search (year_pattern latin_db) None example_title = Some [50, 48, 50, 53]
   \<and> make_date (py_int latin_db [50, 48, 50, 53]) 10 (py_int latin_db [50, 50]) = Some example_now
   \<and> \<bar>toordinal example_now - toordinal example_later\<bar> > 1
   \<and> is_earthquake_baslik latin_db example_later example_title = None"
proof -
  have d: "make_date (py_int latin_db [50, 48, 50, 53]) 10 (py_int latin_db [50, 50]) = Some example_now"
    by (simp add: example_day_int example_year_int example_date)
  have far: "\<bar>toordinal example_now - toordinal example_later\<bar> > 1"
    by (simp add: toordinal_example_now toordinal_example_later)
  from temporal_filter_dominates[OF example_day example_month example_year d far]
  show ?thesis using example_day example_month example_year d far by simp
qed

text \<open>
  C4. A title without a day token (a numeral from 1 to 31 between word boundaries), or
  without a month spelling of the lexicon in its lowercased form, or without a year token
  (\<open>20\<close> and two digits between word boundaries) gives no match.
\<close>

theorem no_date_token_no_match:
  assumes "\<not> has_day_token U t \<or> \<not> has_month_spelling U t \<or> \<not> has_year_token U t"
  shows "is_earthquake_baslik U now t = None"
proof (rule ccontr)
  assume "is_earthquake_baslik U now t \<noteq> None"
  then obtain pm where "is_earthquake_baslik U now t = Some pm" by auto
  then obtain dg mn m yg where "re_search (day_pattern U) None t = Some dg"
    "find_month MONTHS (str_lower U t) = Some (mn, m)"
    "re_search (year_pattern U) None t = Some yg"
    unfolding is_earthquake_baslik_Some_iff by blast
  then have "has_day_token U t" "has_month_spelling U t" "has_year_token U t"
    by (auto intro: day_search_has_token find_month_has_spelling year_search_has_token)
  with assms show False by blast
qed

text \<open>The title \<open>gram alt\<close>U+0131\<open>n\<close> of the specification has no year token.\<close>

lemma ex_le_list_ex: "(\<exists>i \<le> n. P i) = list_ex P [0..<Suc n]"
proof -
  have "set [0..<Suc n] = {i. i \<le> n}" by (auto simp del: upt_Suc)
  then show ?thesis unfolding list_ex_iff by blast
qed

theorem no_date_token_no_match_witness:
  "\<not> has_year_token latin_db (ascii ''gram alt'' @ [0x131] @ ascii ''n'')
   \<and> is_earthquake_baslik latin_db example_now (ascii ''gram alt'' @ [0x131] @ ascii ''n'') = None"
proof -
  have "\<not> has_year_token latin_db (ascii ''gram alt'' @ [0x131] @ ascii ''n'')"
    by (simp add: has_year_token_def ex_le_list_ex ascii_def upt_rec token_at_def
          is_year_token_def substring_def)
  then show ?thesis
    using no_date_token_no_match[of latin_db "ascii ''gram alt'' @ [0x131] @ ascii ''n''" example_now]
    by simp
qed

text \<open>
  C10, as stated: the day of every candidate is the integer value of the leftmost token
  in [1,31] of the raw title. In \<open>07 ekim 2025 saat 3 adana depremi\<close> the leftmost such
  token is \<open>07\<close>, at position 0 and of value 7; the pattern of the detector does not
  match a numeral that begins with zero, and the day returned on 3 October 2025 is 3.
  On 7 October 2025 the title is no candidate at all.
\<close>

theorem leading_zero_token_is_not_the_day:
  "range_token_at latin_db padded_day_title 0 2
   \<and> py_int latin_db (substring padded_day_title 0 2) = 7
   \<and> is_earthquake_baslik latin_db october_third padded_day_title = Some october_third_match
   \<and> day october_third_match = 3
   \<and> is_earthquake_baslik latin_db october_seventh padded_day_title = None"
  by (simp add: padded_day_range_token padded_day_detection toordinal_october_third
        toordinal_october_seventh october_third_match_def)

text \<open>
  C10, amended: the day of every candidate is the value of the leftmost day token of the
  raw title, a day token being the numeral, in ASCII digits and without a leading zero,
  of an integer from 1 to 31 between two word boundaries: there is a day token at some
  position, no day token starts at an earlier position, and the day field is the number
  the token denotes, whether or not that token belongs to the date.
\<close>

theorem day_is_leftmost_token:
  assumes "is_earthquake_baslik U now t = Some pm"
  shows "\<exists>i n. day_token_at U t i n \<and> (\<forall>j < i. \<forall>m. \<not> day_token_at U t j m)
               \<and> day pm = int (decimal_value (substring t i n))"
proof -
  from assms obtain dg where dg: "re_search (day_pattern U) None t = Some dg"
    and d: "day pm = py_int U dg"
    unfolding is_earthquake_baslik_Some_iff by auto
  from day_search_leftmost[OF dg] obtain i where i: "day_token_at U t i (length dg)"
    "substring t i (length dg) = dg" "\<forall>j < i. \<forall>m. \<not> day_token_at U t j m" by blast
  from i(1) have "is_day_token (substring t i (length dg))" unfolding day_token_at_def by blast
  then have "is_day_token dg" by (simp only: i(2))
  then have "py_int U dg = int (decimal_value dg)" by (rule py_int_day_token)
  with d i show ?thesis by metis
qed

text \<open>In \<open>3 artci 4 ekim 2025 adana depremi\<close> the day tokens are \<open>3\<close> at position 0 and \<open>4\<close>
  at position 8; the day returned is 3, though the date of the title is 4 October.\<close>

theorem day_is_leftmost_token_witness:
  "is_earthquake_baslik latin_db october_third two_numbers_title = Some october_third_match
   \<and> day_token_at latin_db two_numbers_title 0 1
   \<and> day_token_at latin_db two_numbers_title 8 1
   \<and> decimal_value (substring two_numbers_title 8 1) = 4
   \<and> day october_third_match = int (decimal_value (substring two_numbers_title 0 1))
   \<and> day october_third_match = 3
   \<and> (\<exists>i n. day_token_at latin_db two_numbers_title i n
          \<and> (\<forall>j < i. \<forall>m. \<not> day_token_at latin_db two_numbers_title j m)
          \<and> day october_third_match = int (decimal_value (substring two_numbers_title i n)))"
  using day_is_leftmost_token[OF two_numbers_detected] two_numbers_detected two_numbers_day_tokens
  by (simp add: october_third_match_def)

text \<open>
  C6, as stated: two runs of the detector on the same title return the same result,
  whatever else differs. The detector reads the current date, and the running example
  is a match on 22 October 2025 and no match three days later.
\<close>

theorem same_title_different_result:
  "is_earthquake_baslik latin_db example_now example_title
     \<noteq> is_earthquake_baslik latin_db example_later example_title"
  by (simp add: example_detected example_rejected_later)

text \<open>
  C6, amended: the current date decides only whether a candidate is returned. Two runs
  on the same title that both return a candidate return the same candidate, field by
  field.
\<close>

theorem candidate_fields_from_title:
  assumes "is_earthquake_baslik U now1 t = Some a" and "is_earthquake_baslik U now2 t = Some b"
  shows "a = b"
  using assms unfolding is_earthquake_baslik_Some_iff by auto

theorem candidate_fields_from_title_witness:
  "is_earthquake_baslik latin_db example_now example_title = Some example_match
   \<and> is_earthquake_baslik latin_db \<lparr>date_year = 2025, date_month = 10, date_day = 23\<rparr> example_title
       = Some example_match
   \<and> example_match = example_match"
proof -
  have "toordinal \<lparr>date_year = 2025, date_month = 10, date_day = 23\<rparr> = 739547"
    by (simp add: toordinal_def days_before_year_def days_before_month_def days_in_month_def
          is_leap_def upt_rec)
  then have b: "is_earthquake_baslik latin_db \<lparr>date_year = 2025, date_month = 10, date_day = 23\<rparr>
                  example_title = Some example_match"
    by (simp add: example_detection)
  from candidate_fields_from_title[OF example_detected b] show ?thesis
    using example_detected b by simp
qed

text \<open>
  C5. A title whose extracted date is valid and within one day of the current date, and
  which names a province, gives a candidate: with confidence high when the lowercased
  title holds one of the two keywords, with confidence medium when it holds neither.
\<close>

theorem dated_province_title_is_candidate:
  assumes "re_search (day_pattern U) None t = Some day_group"
    and "find_month MONTHS (str_lower U t) = Some (mname, m)"
    and "re_search (year_pattern U) None t = Some year_group"
    and "make_date (py_int U year_group) m (py_int U day_group) = Some extracted"
    and "\<bar>toordinal extracted - toordinal now\<bar> \<le> 1"
    and "names_province U t"
  shows "\<exists>pm. is_earthquake_baslik U now t = Some pm
           \<and> confidence pm = (if has_keyword U t then High else Medium)
           \<and> has_earthquake_keyword pm = has_keyword U t"
proof -
  from assms(6) obtain p where
    p: "find_province U PROVINCES (str_lower U t) (normalize_turkish U t) = Some p"
    unfolding find_province_names by blast
  from assms(4,5) have cur: "is_date_current now (py_int U day_group) m (py_int U year_group) 1"
    by (simp add: is_date_current_def)
  show ?thesis
    unfolding is_earthquake_baslik_Some_iff keyword_check
    using assms(1-3) cur p by auto
qed

theorem dated_province_title_is_candidate_witness:
  "re_search (day_pattern latin_db) None example_title = Some [50, 50]
   \<and> find_month MONTHS (str_lower latin_db example_title) = Some (ascii ''ekim'', 10)
   \<and> re_search (year_pattern latin_db) None example_title = Some [50, 48, 50, 53]
   \<and> make_date (py_int latin_db [50, 48, 50, 53]) 10 (py_int latin_db [50, 50]) = Some example_now
   \<and> \<bar>toordinal example_now - toordinal example_now\<bar> \<le> 1
   \<and> names_province latin_db example_title
   \<and> has_keyword latin_db example_title
   \<and> (\<exists>pm. is_earthquake_baslik latin_db example_now example_title = Some pm
          \<and> confidence pm = (if has_keyword latin_db example_title then High else Medium)
          \<and> has_earthquake_keyword pm = has_keyword latin_db example_title)"
proof -
  have d: "make_date (py_int latin_db [50, 48, 50, 53]) 10 (py_int latin_db [50, 50]) = Some example_now"
    by (simp add: example_day_int example_year_int example_date)
  have near: "\<bar>toordinal example_now - toordinal example_now\<bar> \<le> 1" by simp
  have p: "names_province latin_db example_title"
    by (simp add: find_province_names example_province)
  have k: "has_keyword latin_db example_title"
    using example_keyword by (simp only: keyword_check)
  from dated_province_title_is_candidate[OF example_day example_month example_year d near p]
  show ?thesis using example_day example_month example_year d near p k by simp
qed

section \<open>The normaliser\<close>

text \<open>
  The substitution is code point by code point, and so is lowercasing on every code point
  of the Latin repertoire but U+0130: the output is as long as the input whenever the
  input has no U+0130.
\<close>

lemma latin_lower_length: "c \<noteq> 0x130 \<Longrightarrow> length (latin_lower c) = 1"
  by (simp add: latin_lower_def)

lemma latin_lower_concat_length:
  "0x130 \<notin> set s \<Longrightarrow> length (concat (map latin_lower s)) = length s"
  by (induction s) (simp_all add: latin_lower_length)

lemma normalize_length_without_dotted_capital:
  "0x130 \<notin> set s \<Longrightarrow> length (normalize_turkish latin_db s) = length s"
  by (simp add: normalize_turkish_fold str_lower_def latin_db_def latin_lower_concat_length)

text \<open>
  C7. The output of the normaliser is to be no longer than its input. The table has an
  entry that sends U+0130 to \<open>i\<close>, but the function lowercases first, and the lowercase
  form of U+0130 is the two code points U+0069 U+0307: the entry is never reached, the
  combining dot is left in the output, and the 8 code points of the city's name with
  U+0130 become 9, which is not the normal form of the name in ASCII either.
\<close>

theorem dotted_capital_i_lengthens:
  "map_of replacements 0x130 = Some 0x69
   \<and> normalize_turkish latin_db istanbul_dotted = [0x69, 0x307] @ ascii ''stanbul''
   \<and> length (normalize_turkish latin_db istanbul_dotted) = 9
   \<and> length istanbul_dotted = 8
   \<and> normalize_turkish latin_db (ascii ''istanbul'') = ascii ''istanbul''"
  by (simp add: normalize_turkish_fold str_lower_def latin_db_def latin_lower_def istanbul_dotted_def
        ascii_def replacements_def turkish_fold_def ascii_lower_def)

section \<open>The monitoring loop\<close>

lemma sends_once_snoc_other:
  assumes "sends_once es" and "\<And>b pm ok. e \<noteq> SinkCall b pm ok"
  shows "sends_once (es @ [e])"
  unfolding sends_once_def
proof (intro allI impI)
  fix xs b pm ys b' pm' ok
  assume eq: "es @ [e] = xs @ SinkCall b pm True # ys" and mem: "SinkCall b' pm' ok \<in> set ys"
  from mem obtain ys' z where ys: "ys = ys' @ [z]" by (cases ys rule: rev_cases) auto
  with eq have es: "es = xs @ SinkCall b pm True # ys'" and z: "z = e" by auto
  from mem ys z assms(2) have "SinkCall b' pm' ok \<in> set ys'" by auto
  with assms(1) es show "earthquake_id pm' \<noteq> earthquake_id pm" unfolding sends_once_def by blast
qed

lemma sends_once_snoc_call:
  assumes "sends_once es"
    and "\<And>b pm. SinkCall b pm True \<in> set es \<Longrightarrow> earthquake_id pm \<noteq> earthquake_id pm0"
  shows "sends_once (es @ [SinkCall b0 pm0 ok0])"
  unfolding sends_once_def
proof (intro allI impI)
  fix xs b pm ys b' pm' ok
  assume eq: "es @ [SinkCall b0 pm0 ok0] = xs @ SinkCall b pm True # ys"
    and mem: "SinkCall b' pm' ok \<in> set ys"
  from mem obtain ys' z where ys: "ys = ys' @ [z]" by (cases ys rule: rev_cases) auto
  with eq have es: "es = xs @ SinkCall b pm True # ys'" and z: "z = SinkCall b0 pm0 ok0" by auto
  show "earthquake_id pm' \<noteq> earthquake_id pm"
  proof (cases "SinkCall b' pm' ok \<in> set ys'")
    case True
    with assms(1) es show ?thesis unfolding sends_once_def by blast
  next
    case False
    with mem ys z have "pm' = pm0" by auto
    moreover have "SinkCall b pm True \<in> set es" using es by simp
    ultimately show ?thesis using assms(2) by fastforce
  qed
qed

lemma check_basliks_inv:
  "dedup_inv st \<Longrightarrow> dedup_inv (fst (check_basliks U st xs))"
proof (induction xs arbitrary: st)
  case Nil
  then show ?case by simp
next
  case (Cons x xs)
  show ?case
  proof (cases "is_earthquake_baslik U (clock x) (title (item x))")
    case None
    with Cons show ?thesis by simp
  next
    case (Some pm)
    show ?thesis
    proof (cases "earthquake_id pm \<in> detected_earthquakes st")
      case True
      with Some Cons show ?thesis by simp
    next
      case False
      have fresh: "\<And>b pm'. SinkCall b pm' True \<in> set (emitted st) \<Longrightarrow> earthquake_id pm' \<noteq> earthquake_id pm"
        using Cons.prems False unfolding dedup_inv_def by metis
      have so: "sends_once (emitted st @ [SinkCall (item x) pm ok])" for ok
        using Cons.prems fresh by (intro sends_once_snoc_call) (auto simp: dedup_inv_def)
      show ?thesis
      proof (cases "sink_ok x")
        case True
        let ?st' = "st\<lparr>emitted := emitted st @ [SinkCall (item x) pm True],
                       detected_earthquakes := insert (earthquake_id pm) (detected_earthquakes st)\<rparr>"
        have "dedup_inv ?st'" using so[of True] Cons.prems by (auto simp: dedup_inv_def)
        from Cons.IH[OF this] Some False True show ?thesis by simp
      next
        case no: False
        have "dedup_inv (st\<lparr>emitted := emitted st @ [SinkCall (item x) pm False]\<rparr>)"
          using so[of False] Cons.prems by (auto simp: dedup_inv_def)
        with Some False no show ?thesis by simp
      qed
    qed
  qed
qed

lemma heartbeats_append: "heartbeats (es @ fs) = heartbeats es @ heartbeats fs"
  by (induction es rule: heartbeats.induct) simp_all

lemma sink_calls_append: "sink_calls (es @ fs) = sink_calls es @ sink_calls fs"
  by (induction es rule: sink_calls.induct) simp_all

lemma monitor_cycle_steps:
  "monitor_cycle U st basliks =
     (if basliks \<noteq> []
      then (if Suc (fetch_count st) mod HEARTBEAT_INTERVAL = 0 \<and> \<not> log_ok (hd basliks)
            then handle_exception (heartbeat_step (st\<lparr>fetch_count := Suc (fetch_count st)\<rparr>)) (hd basliks)
            else after_loop (check_basliks U (heartbeat_step (st\<lparr>fetch_count := Suc (fetch_count st)\<rparr>)) basliks))
      else st\<lparr>fetch_count := Suc (fetch_count st)\<rparr>)"
  by (simp add: monitor_cycle_def Let_def heartbeat_step_def after_loop_def case_prod_beta)

lemma heartbeat_step_fields:
  "fetch_count (heartbeat_step s) = fetch_count s"
  "detected_earthquakes (heartbeat_step s) = detected_earthquakes s"
  "running (heartbeat_step s) = running s"
  "sink_calls (emitted (heartbeat_step s)) = sink_calls (emitted s)"
  "heartbeats (emitted (heartbeat_step s)) =
     heartbeats (emitted s) @ (if fetch_count s mod HEARTBEAT_INTERVAL = 0 then [fetch_count s] else [])"
  by (simp_all add: heartbeat_step_def sink_calls_append heartbeats_append)

lemma handle_exception_fields:
  "fetch_count (handle_exception s x) = fetch_count s"
  "detected_earthquakes (handle_exception s x) = detected_earthquakes s"
  "running (handle_exception s x) = (running s \<and> log_ok x)"
  "sink_calls (emitted (handle_exception s x)) = sink_calls (emitted s)"
  "heartbeats (emitted (handle_exception s x)) = heartbeats (emitted s)"
  by (simp_all add: handle_exception_def sink_calls_append heartbeats_append)

lemma handle_exception_emitted: "emitted (handle_exception s x) = emitted s @ [UnexpectedError]"
  by (simp add: handle_exception_def)

lemma after_loop_fields:
  "fetch_count (after_loop r) = fetch_count (fst r)"
  "detected_earthquakes (after_loop r) = detected_earthquakes (fst r)"
  "sink_calls (emitted (after_loop r)) = sink_calls (emitted (fst r))"
  "heartbeats (emitted (after_loop r)) = heartbeats (emitted (fst r))"
  by (simp_all add: after_loop_def handle_exception_fields split: option.splits)

lemma dedup_inv_handle_exception: "dedup_inv s \<Longrightarrow> dedup_inv (handle_exception s x)"
  using sends_once_snoc_other[of "emitted s" UnexpectedError]
  by (auto simp: dedup_inv_def handle_exception_def)

lemma dedup_inv_heartbeat_step: "dedup_inv s \<Longrightarrow> dedup_inv (heartbeat_step s)"
  using sends_once_snoc_other[of "emitted s" "Heartbeat (fetch_count s)"]
  by (auto simp: dedup_inv_def heartbeat_step_def)

lemma dedup_inv_after_loop: "dedup_inv (fst r) \<Longrightarrow> dedup_inv (after_loop r)"
  by (simp add: after_loop_def dedup_inv_handle_exception split: option.splits)

lemma monitor_cycle_inv: "dedup_inv st \<Longrightarrow> dedup_inv (monitor_cycle U st basliks)"
proof -
  assume inv: "dedup_inv st"
  let ?s = "heartbeat_step (st\<lparr>fetch_count := Suc (fetch_count st)\<rparr>)"
  have 1: "dedup_inv (st\<lparr>fetch_count := Suc (fetch_count st)\<rparr>)" using inv by (simp add: dedup_inv_def)
  then have 2: "dedup_inv ?s" by (rule dedup_inv_heartbeat_step)
  have 3: "dedup_inv (after_loop (check_basliks U ?s basliks))"
    using check_basliks_inv[OF 2] by (rule dedup_inv_after_loop)
  show ?thesis
    unfolding monitor_cycle_steps using 1 3 dedup_inv_handle_exception[OF 2] by simp
qed

lemma monitor_earthquakes_inv: "dedup_inv (monitor_earthquakes U cycles)"
proof -
  have "dedup_inv st \<Longrightarrow>
        dedup_inv (foldl (\<lambda>st basliks. if running st then monitor_cycle U st basliks else st) st cycles)" for st
    by (induction cycles arbitrary: st) (simp_all add: monitor_cycle_inv)
  moreover have "dedup_inv initial_state" by (simp add: dedup_inv_def initial_state_def sends_once_def)
  ultimately show ?thesis by (simp add: monitor_earthquakes_def)
qed

lemma same_identity_same_id:
  "event_identity a = event_identity b \<Longrightarrow> earthquake_id a = earthquake_id b"
  by (simp add: event_identity_def earthquake_id_def)

lemma check_basliks_trace:
  "\<exists>es. emitted (fst (check_basliks U st xs)) = emitted st @ es \<and> heartbeats es = []"
proof (induction xs arbitrary: st)
  case Nil
  show ?case by simp
next
  case (Cons x xs)
  show ?case
  proof (cases "is_earthquake_baslik U (clock x) (title (item x))")
    case None
    with Cons.IH[of st] show ?thesis by simp
  next
    case (Some pm)
    let ?st' = "st\<lparr>emitted := emitted st @ [SinkCall (item x) pm True],
                   detected_earthquakes := insert (earthquake_id pm) (detected_earthquakes st)\<rparr>"
    from Cons.IH[of ?st'] obtain es where es:
      "emitted (fst (check_basliks U ?st' xs)) = emitted st @ SinkCall (item x) pm True # es"
      "heartbeats es = []" by auto
    then have "\<exists>fs. emitted (fst (check_basliks U ?st' xs)) = emitted st @ fs \<and> heartbeats fs = []"
      by (intro exI[of _ "SinkCall (item x) pm True # es"]) simp
    with Some Cons.IH[of st] show ?thesis by simp
  qed
qed

lemma check_basliks_fetch_count: "fetch_count (fst (check_basliks U st xs)) = fetch_count st"
  by (induction xs arbitrary: st) (simp_all split: option.splits)

lemma check_basliks_running: "running (fst (check_basliks U st xs)) = running st"
  by (induction xs arbitrary: st) (simp_all split: option.splits)


lemma monitor_cycle_fetch_count: "fetch_count (monitor_cycle U st basliks) = Suc (fetch_count st)"
  by (simp add: monitor_cycle_steps after_loop_fields handle_exception_fields check_basliks_fetch_count
        heartbeat_step_fields)

subsection \<open>The identifier determines the identity\<close>

lemma decimal_value_snoc: "decimal_value (xs @ [c]) = 10 * decimal_value xs + (c - 0x30)"
  by (simp add: decimal_value_def)

lemma decimal_value_digits_of: "decimal_value (digits_of n) = n"
proof (induction n rule: digits_of.induct)
  case (1 n)
  show ?case
  proof (cases "n < 10")
    case True
    then show ?thesis by (simp add: digits_of.simps[of n] decimal_value_def)
  next
    case False
    with 1 have "decimal_value (digits_of (n div 10)) = n div 10" by simp
    with False show ?thesis by (simp add: digits_of.simps[of n] decimal_value_snoc)
  qed
qed

lemma digits_of_no_hyphen: "0x2D \<notin> set (digits_of n)"
proof (induction n rule: digits_of.induct)
  case (1 n)
  show ?case
  proof (cases "n < 10")
    case True
    then show ?thesis by (simp add: digits_of.simps[of n])
  next
    case False
    with 1 have "0x2D \<notin> set (digits_of (n div 10))" by simp
    with False show ?thesis by (simp add: digits_of.simps[of n])
  qed
qed

lemma str_int_inj: "0 \<le> i \<Longrightarrow> 0 \<le> j \<Longrightarrow> str_int i = str_int j \<Longrightarrow> i = j"
proof -
  assume i: "0 \<le> i" and j: "0 \<le> j" and eq: "str_int i = str_int j"
  then have "digits_of (nat i) = digits_of (nat j)" by (simp add: str_int_def)
  then have "decimal_value (digits_of (nat i)) = decimal_value (digits_of (nat j))" by simp
  then have "nat i = nat j" by (simp only: decimal_value_digits_of)
  with i j show "i = j" by simp
qed

lemma str_int_no_hyphen: "0 \<le> i \<Longrightarrow> 0x2D \<notin> set (str_int i)"
  by (simp add: str_int_def digits_of_no_hyphen)

lemma split_at_first:
  assumes "xs @ c # ys = xs' @ c # ys'" and "c \<notin> set xs" and "c \<notin> set xs'"
  shows "xs = xs' \<and> ys = ys'"
  using assms
proof (induction xs arbitrary: xs')
  case Nil
  then show ?case by (cases xs') auto
next
  case (Cons a xs)
  then show ?case by (cases xs') auto
qed

lemma earthquake_id_inj:
  assumes "earthquake_id a = earthquake_id b"
    and "0 \<le> day a" "0 \<le> month a" "0 \<le> year a"
    and "0 \<le> day b" "0 \<le> month b" "0 \<le> year b"
  shows "event_identity a = event_identity b"
proof -
  from assms(1) have e: "str_int (day a) @ 0x2D # (str_int (month a) @ 0x2D # (str_int (year a) @ 0x2D # province a))
      = str_int (day b) @ 0x2D # (str_int (month b) @ 0x2D # (str_int (year b) @ 0x2D # province b))"
    by (simp add: earthquake_id_def)
  from split_at_first[OF e str_int_no_hyphen[OF assms(2)] str_int_no_hyphen[OF assms(5)]]
  have d: "str_int (day a) = str_int (day b)"
    and e2: "str_int (month a) @ 0x2D # (str_int (year a) @ 0x2D # province a)
           = str_int (month b) @ 0x2D # (str_int (year b) @ 0x2D # province b)" by simp_all
  from split_at_first[OF e2 str_int_no_hyphen[OF assms(3)] str_int_no_hyphen[OF assms(6)]]
  have m: "str_int (month a) = str_int (month b)"
    and e3: "str_int (year a) @ 0x2D # province a = str_int (year b) @ 0x2D # province b" by simp_all
  from split_at_first[OF e3 str_int_no_hyphen[OF assms(4)] str_int_no_hyphen[OF assms(7)]]
  have y: "str_int (year a) = str_int (year b)" and p: "province a = province b" by simp_all
  from d m y p assms(2-7) show ?thesis
    by (simp add: event_identity_def str_int_inj)
qed

lemma detected_date_positive:
  assumes "is_earthquake_baslik U now t = Some pm"
  shows "0 \<le> day pm \<and> 0 \<le> month pm \<and> 0 \<le> year pm"
proof -
  from assms obtain dg m yg where cur: "is_date_current now (py_int U dg) m (py_int U yg) 1"
    and pm: "day pm = py_int U dg" "month pm = m" "year pm = py_int U yg"
    unfolding is_earthquake_baslik_Some_iff by auto
  from cur have "make_date (py_int U yg) m (py_int U dg) \<noteq> None"
    by (auto simp: is_date_current_def split: option.splits)
  then have "1 \<le> py_int U yg \<and> 1 \<le> m \<and> 1 \<le> py_int U dg"
    by (auto simp: make_date_def split: if_splits)
  with pm show ?thesis by simp
qed

lemma detected_identity:
  assumes "is_earthquake_baslik U now1 t1 = Some a" and "is_earthquake_baslik U now2 t2 = Some b"
  shows "earthquake_id a = earthquake_id b \<longleftrightarrow> event_identity a = event_identity b"
  using earthquake_id_inj[of a b] detected_date_positive[OF assms(1)] detected_date_positive[OF assms(2)]
    same_identity_same_id[of a b] by blast

subsection \<open>The sink calls of one cycle\<close>

lemma check_basliks_calls:
  "\<exists>cs. sink_calls (emitted (fst (check_basliks U s xs))) = sink_calls (emitted s) @ cs"
proof -
  from check_basliks_trace[of U s xs] obtain es where
    "emitted (fst (check_basliks U s xs)) = emitted s @ es" by blast
  then show ?thesis by (simp add: sink_calls_append)
qed

lemma check_basliks_detected_mono:
  "detected_earthquakes s \<subseteq> detected_earthquakes (fst (check_basliks U s xs))"
proof (induction xs arbitrary: s)
  case Nil
  show ?case by simp
next
  case (Cons x xs)
  show ?case
  proof (cases "is_earthquake_baslik U (clock x) (title (item x))")
    case None
    with Cons.IH[of s] show ?thesis by simp
  next
    case (Some pm)
    let ?s' = "s\<lparr>emitted := emitted s @ [SinkCall (item x) pm True],
                  detected_earthquakes := insert (earthquake_id pm) (detected_earthquakes s)\<rparr>"
    from Cons.IH[of ?s'] have "detected_earthquakes s \<subseteq> detected_earthquakes (fst (check_basliks U ?s' xs))"
      by auto
    with Some Cons.IH[of s] show ?thesis by simp
  qed
qed

text \<open>What the loop over the entries leaves behind: when it ends normally every sink call
  it made returned; when an exception leaves it, the call that raised is the last one.\<close>

lemma check_basliks_result:
  "check_basliks U s xs = (s', r) \<Longrightarrow>
   \<exists>cs. sink_calls (emitted s') = sink_calls (emitted s) @ cs \<and>
     (case r of
        None \<Rightarrow> list_all snd cs
      | Some x \<Rightarrow>
          \<exists>pm es cs0. x \<in> set xs \<and> \<not> sink_ok x
            \<and> is_earthquake_baslik U (clock x) (title (item x)) = Some pm
            \<and> earthquake_id pm \<notin> detected_earthquakes s'
            \<and> emitted s' = es @ [SinkCall (item x) pm False]
            \<and> cs = cs0 @ [(pm, False)] \<and> list_all snd cs0)"
proof (induction xs arbitrary: s)
  case Nil
  then show ?case by auto
next
  case (Cons x xs)
  show ?case
  proof (cases "is_earthquake_baslik U (clock x) (title (item x))")
    case None
    with Cons.prems have "check_basliks U s xs = (s', r)" by simp
    from Cons.IH[OF this] show ?thesis by (auto split: option.splits)
  next
    case (Some pm)
    show ?thesis
    proof (cases "earthquake_id pm \<in> detected_earthquakes s")
      case True
      with Some Cons.prems have "check_basliks U s xs = (s', r)" by simp
      from Cons.IH[OF this] show ?thesis by (auto split: option.splits)
    next
      case fresh: False
      show ?thesis
      proof (cases "sink_ok x")
        case True
        let ?s1 = "s\<lparr>emitted := emitted s @ [SinkCall (item x) pm True],
                      detected_earthquakes := insert (earthquake_id pm) (detected_earthquakes s)\<rparr>"
        from Some fresh True Cons.prems have "check_basliks U ?s1 xs = (s', r)" by simp
        from Cons.IH[OF this] obtain cs where
          cs: "sink_calls (emitted s') = sink_calls (emitted ?s1) @ cs"
          and rest: "(case r of
              None \<Rightarrow> list_all snd cs
            | Some x' \<Rightarrow>
                \<exists>pm' es cs0. x' \<in> set xs \<and> \<not> sink_ok x'
                  \<and> is_earthquake_baslik U (clock x') (title (item x')) = Some pm'
                  \<and> earthquake_id pm' \<notin> detected_earthquakes s'
                  \<and> emitted s' = es @ [SinkCall (item x') pm' False]
                  \<and> cs = cs0 @ [(pm', False)] \<and> list_all snd cs0)" by blast
        have c: "sink_calls (emitted s') = sink_calls (emitted s) @ (pm, True) # cs"
          using cs by (simp add: sink_calls_append)
        show ?thesis
        proof (cases r)
          case None
          with rest c show ?thesis by (intro exI[of _ "(pm, True) # cs"]) simp
        next
          case (Some x')
          with rest obtain pm' es cs0 where
            r: "x' \<in> set xs" "\<not> sink_ok x'"
               "is_earthquake_baslik U (clock x') (title (item x')) = Some pm'"
               "earthquake_id pm' \<notin> detected_earthquakes s'"
               "emitted s' = es @ [SinkCall (item x') pm' False]"
               "cs = cs0 @ [(pm', False)]" "list_all snd cs0" by auto
          have "(pm, True) # cs = ((pm, True) # cs0) @ [(pm', False)]" "list_all snd ((pm, True) # cs0)"
            using r(6,7) by simp_all
          with Some c r(1-5) show ?thesis
            by (intro exI[of _ "(pm, True) # cs"]) fastforce
        qed
      next
        case False
        with Some fresh Cons.prems
        have s': "s' = s\<lparr>emitted := emitted s @ [SinkCall (item x) pm False]\<rparr>" and r: "r = Some x"
          by simp_all
        have "sink_calls (emitted s') = sink_calls (emitted s) @ [(pm, False)]"
          using s' by (simp add: sink_calls_append)
        moreover have "earthquake_id pm \<notin> detected_earthquakes s'" using s' fresh by simp
        moreover have "emitted s' = emitted s @ [SinkCall (item x) pm False]" using s' by simp
        ultimately show ?thesis using r Some False
          by (intro exI[of _ "[(pm, False)]"]) fastforce
      qed
    qed
  qed
qed

text \<open>The loop reaches an entry when the sink works for the entries before it, and sends
  the entry to the sink when its identifier is neither in the store nor the identifier
  of an entry before it.\<close>

lemma check_basliks_reaches:
  assumes "\<forall>z \<in> set pre. sink_ok z
             \<and> (\<forall>q. is_earthquake_baslik U (clock z) (title (item z)) = Some q \<longrightarrow> earthquake_id q \<noteq> e)"
    and "is_earthquake_baslik U (clock y) (title (item y)) = Some pm'"
    and "earthquake_id pm' = e"
    and "e \<notin> detected_earthquakes s"
  shows "\<exists>cs. sink_calls (emitted (fst (check_basliks U s (pre @ y # post)))) = sink_calls (emitted s) @ cs
           \<and> (pm', sink_ok y) \<in> set cs"
  using assms(1,4)
proof (induction pre arbitrary: s)
  case Nil
  show ?case
  proof (cases "sink_ok y")
    case True
    let ?s1 = "s\<lparr>emitted := emitted s @ [SinkCall (item y) pm' True],
                  detected_earthquakes := insert (earthquake_id pm') (detected_earthquakes s)\<rparr>"
    from check_basliks_calls[of U ?s1 post] obtain cs where
      "sink_calls (emitted (fst (check_basliks U ?s1 post))) = sink_calls (emitted ?s1) @ cs" by blast
    then have "sink_calls (emitted (fst (check_basliks U ?s1 post)))
                 = sink_calls (emitted s) @ (pm', True) # cs" by (simp add: sink_calls_append)
    moreover have "check_basliks U s ([] @ y # post) = check_basliks U ?s1 post"
      using assms(2,3) Nil.prems(2) True by simp
    ultimately show ?thesis using True by (intro exI[of _ "(pm', True) # cs"]) simp
  next
    case False
    then have "check_basliks U s ([] @ y # post)
                 = (s\<lparr>emitted := emitted s @ [SinkCall (item y) pm' False]\<rparr>, Some y)"
      using assms(2,3) Nil.prems(2) by simp
    then show ?thesis using False by (intro exI[of _ "[(pm', False)]"]) (simp add: sink_calls_append)
  qed
next
  case (Cons z pre)
  from Cons.prems(1) have rest: "\<forall>z \<in> set pre. sink_ok z
      \<and> (\<forall>q. is_earthquake_baslik U (clock z) (title (item z)) = Some q \<longrightarrow> earthquake_id q \<noteq> e)"
    and ok: "sink_ok z"
    and other: "\<And>q. is_earthquake_baslik U (clock z) (title (item z)) = Some q \<Longrightarrow> earthquake_id q \<noteq> e"
    by simp_all
  show ?case
  proof (cases "is_earthquake_baslik U (clock z) (title (item z))")
    case None
    with Cons.IH[OF rest Cons.prems(2)] show ?thesis by simp
  next
    case (Some q)
    show ?thesis
    proof (cases "earthquake_id q \<in> detected_earthquakes s")
      case True
      with Some Cons.IH[OF rest Cons.prems(2)] show ?thesis by simp
    next
      case False
      let ?s1 = "s\<lparr>emitted := emitted s @ [SinkCall (item z) q True],
                    detected_earthquakes := insert (earthquake_id q) (detected_earthquakes s)\<rparr>"
      have "e \<notin> detected_earthquakes ?s1" using Cons.prems(2) other[OF Some] by auto
      from Cons.IH[OF rest this] obtain cs where
        cs: "sink_calls (emitted (fst (check_basliks U ?s1 (pre @ y # post)))) = sink_calls (emitted ?s1) @ cs"
        "(pm', sink_ok y) \<in> set cs" by blast
      have "check_basliks U s ((z # pre) @ y # post) = check_basliks U ?s1 (pre @ y # post)"
        using Some False ok by simp
      with cs show ?thesis
        by (intro exI[of _ "(q, True) # cs"]) (simp add: sink_calls_append)
    qed
  qed
qed

lemma monitor_cycle_calls:
  "sink_calls (emitted (monitor_cycle U st basliks)) = sink_calls (emitted st) @ cycle_calls U st basliks"
proof -
  let ?s = "heartbeat_step (st\<lparr>fetch_count := Suc (fetch_count st)\<rparr>)"
  from check_basliks_calls[of U ?s basliks] obtain cs where
    "sink_calls (emitted (fst (check_basliks U ?s basliks))) = sink_calls (emitted st) @ cs"
    by (auto simp: heartbeat_step_fields)
  then have "\<exists>cs. sink_calls (emitted (monitor_cycle U st basliks)) = sink_calls (emitted st) @ cs"
    by (simp add: monitor_cycle_steps after_loop_fields handle_exception_fields heartbeat_step_fields)
  then show ?thesis by (auto simp: cycle_calls_def)
qed

lemma cycle_calls_eq:
  "sink_calls (emitted (monitor_cycle U st basliks)) = sink_calls (emitted st) @ cs
     \<Longrightarrow> cycle_calls U st basliks = cs"
  by (simp add: cycle_calls_def)

subsection \<open>Runs of the loop on the examples\<close>

lemma example_fetched_detected:
  "is_earthquake_baslik latin_db (clock (example_fetched ok)) (title (item (example_fetched ok)))
     = Some example_match"
  by (simp add: example_fetched_def example_baslik_def example_detected)

lemma example_fetched_fields:
  "item (example_fetched ok) = example_baslik" "sink_ok (example_fetched ok) = ok"
  "log_ok (example_fetched ok) = True"
  "clock (example_fetched ok) = example_now" "title example_baslik = example_title"
  by (simp_all add: example_fetched_def example_baslik_def)

lemma fetched_title_fields:
  "title (item (fetched_title t)) = t" "sink_ok (fetched_title t) = True"
  "log_ok (fetched_title t) = True" "clock (fetched_title t) = example_now"
  by (simp_all add: fetched_title_def)

lemma example_hakkari_ids:
  "earthquake_id example_match \<noteq> earthquake_id hakkari_folded_match"
  "earthquake_id hakkari_accented_match \<noteq> earthquake_id hakkari_folded_match"
  "earthquake_id hakkari_folded_match \<noteq> earthquake_id hakkari_accented_match"
  by (simp_all add: earthquake_id_def example_match_def hakkari_accented_match_def
        hakkari_folded_match_def ascii_def)

lemmas run_example = monitor_earthquakes_def monitor_cycle_def initial_state_def
  handle_exception_def HEARTBEAT_INTERVAL_def Let_def example_fetched_fields example_detected
  fetched_title_fields hakkari_accented_detected hakkari_folded_detected example_hakkari_ids

lemma example_failure_then_success:
  "emitted (monitor_earthquakes latin_db [[example_fetched False], [example_fetched True]]) =
     [SinkCall example_baslik example_match False, UnexpectedError, Heartbeat 2,
      SinkCall example_baslik example_match True]"
  by (simp add: run_example)

lemma example_cycle_with_failure:
  "monitor_cycle latin_db initial_state [fetched_title hakkari_folded, example_fetched False]
     = \<lparr>detected_earthquakes = {earthquake_id hakkari_folded_match}, fetch_count = 1,
        emitted = [SinkCall (item (fetched_title hakkari_folded)) hakkari_folded_match True,
                   SinkCall example_baslik example_match False, UnexpectedError],
        running = True\<rparr>"
  by (simp add: run_example)

text \<open>When the handler's own call of \<open>log_message\<close> raises, the loop ends: the second cycle
  is not run.\<close>

lemma example_failed_log_ends_loop:
  "monitor_earthquakes latin_db
       [[(example_fetched False)\<lparr>log_ok := False\<rparr>], [example_fetched True]]
     = \<lparr>detected_earthquakes = {}, fetch_count = 1,
        emitted = [SinkCall example_baslik example_match False, UnexpectedError],
        running = False\<rparr>"
  by (simp add: run_example)

text \<open>
  C2, as stated: for one identity the loop calls the sink at most once. When the call
  raises, the identifier is not added to \<open>detected_earthquakes\<close>, and the same topic in the
  next cycle is sent to the sink again: two cycles with the running example, the sink
  raising in both, give two calls for one identity.
\<close>

theorem same_identity_sent_twice:
  "sink_calls (emitted (monitor_earthquakes latin_db [[example_fetched False], [example_fetched False]]))
     = [(example_match, False), (example_match, False)]"
  by (simp add: run_example)

text \<open>
  C2, amended: within one run of the loop, a call of the sink is followed by another
  call for the same identity (day, month, year, province) only if it raised. So after a
  call that returned there is no further call for that identity, at most one call per
  identity returns, and a run in which no call raises makes at most one call per
  identity.
\<close>

theorem repeated_call_follows_failure:
  assumes "emitted (monitor_earthquakes U cycles) = xs @ SinkCall b pm ok # ys"
    and "SinkCall b' pm' ok' \<in> set ys"
    and "event_identity pm' = event_identity pm"
  shows "\<not> ok"
proof
  assume ok
  with assms(1) have "emitted (monitor_earthquakes U cycles) = xs @ SinkCall b pm True # ys" by simp
  with monitor_earthquakes_inv[of U cycles] assms(2)
  have "earthquake_id pm' \<noteq> earthquake_id pm" unfolding dedup_inv_def sends_once_def by blast
  with assms(3) show False using same_identity_same_id by blast
qed

theorem repeated_call_follows_failure_witness:
  "emitted (monitor_earthquakes latin_db [[example_fetched False], [example_fetched True]])
     = [] @ SinkCall example_baslik example_match False
          # [UnexpectedError, Heartbeat 2, SinkCall example_baslik example_match True]
   \<and> SinkCall example_baslik example_match True
       \<in> set [UnexpectedError, Heartbeat 2, SinkCall example_baslik example_match True]
   \<and> event_identity example_match = event_identity example_match
   \<and> \<not> False"
proof -
  have e: "emitted (monitor_earthquakes latin_db [[example_fetched False], [example_fetched True]])
     = [] @ SinkCall example_baslik example_match False
          # [UnexpectedError, Heartbeat 2, SinkCall example_baslik example_match True]"
    by (simp add: example_failure_then_success)
  have m: "SinkCall example_baslik example_match True
       \<in> set [UnexpectedError, Heartbeat 2, SinkCall example_baslik example_match True]" by simp
  from repeated_call_follows_failure[OF e m refl] show ?thesis using e m by simp
qed

text \<open>
  C8, as stated: an identity whose recording failed is never sent to the sink again in a
  later cycle. The running example, with the sink raising in the first cycle and the same
  topic fetched in the second, is sent twice.
\<close>

theorem failed_identity_sent_in_later_cycle:
  "sink_calls (emitted (monitor_earthquakes latin_db [[example_fetched False], [example_fetched True]]))
     = [(example_match, False), (example_match, True)]"
  by (simp add: example_failure_then_success)

text \<open>
  C8, amended. Let a call of the sink raise in a cycle. Then the identifier is not added
  to the dedup store; the entry that raised is the last one the cycle looks at, and the
  record of the cycle ends with the failed call and the line of the handler; the loop
  goes on, unless the handler's own call of \<open>log_message\<close> raises as well, which ends the
  loop. The alert is tried again, not suppressed: a following cycle calls the sink for the
  first entry that yields the failed identity, provided the cycle gets to that entry,
  that is, the heartbeat line of the cycle can be logged and the sink works for the
  entries before it.
\<close>

theorem failed_alert_is_sent_again:
  assumes fail: "(pm, False) \<in> set (cycle_calls U st xs)"
    and y: "is_earthquake_baslik U (clock y) (title (item y)) = Some pm'"
    and same: "event_identity pm' = event_identity pm"
    and before: "\<forall>z \<in> set pre. sink_ok z
        \<and> (\<forall>q. is_earthquake_baslik U (clock z) (title (item z)) = Some q
                \<longrightarrow> event_identity q \<noteq> event_identity pm)"
    and log: "log_ok (hd (pre @ [y]))"
  shows "earthquake_id pm \<notin> detected_earthquakes (monitor_cycle U st xs)
    \<and> (\<exists>x \<in> set xs. \<not> sink_ok x
          \<and> is_earthquake_baslik U (clock x) (title (item x)) = Some pm
          \<and> (\<exists>es. emitted (monitor_cycle U st xs) = es @ [SinkCall (item x) pm False, UnexpectedError])
          \<and> running (monitor_cycle U st xs) = (running st \<and> log_ok x))
    \<and> (pm', sink_ok y) \<in> set (cycle_calls U (monitor_cycle U st xs) (pre @ y # post))"
proof -
  let ?s = "heartbeat_step (st\<lparr>fetch_count := Suc (fetch_count st)\<rparr>)"
  let ?st1 = "monitor_cycle U st xs"
  have ne: "xs \<noteq> []"
  proof
    assume "xs = []"
    then have "cycle_calls U st xs = []" by (simp add: cycle_calls_def monitor_cycle_steps)
    with fail show False by simp
  qed
  have hb: "\<not> (Suc (fetch_count st) mod HEARTBEAT_INTERVAL = 0 \<and> \<not> log_ok (hd xs))"
  proof
    assume "Suc (fetch_count st) mod HEARTBEAT_INTERVAL = 0 \<and> \<not> log_ok (hd xs)"
    with ne have "?st1 = handle_exception ?s (hd xs)" by (simp add: monitor_cycle_steps)
    then have "sink_calls (emitted ?st1) = sink_calls (emitted st) @ []"
      by (simp add: handle_exception_fields heartbeat_step_fields)
    then have "cycle_calls U st xs = []" by (rule cycle_calls_eq)
    with fail show False by simp
  qed
  obtain s' r where c: "check_basliks U ?s xs = (s', r)" by (cases "check_basliks U ?s xs")
  have st1: "?st1 = after_loop (s', r)"
    unfolding monitor_cycle_steps[of U st xs] using ne hb c by (auto simp del: check_basliks.simps)
  from check_basliks_result[OF c] obtain cs where
    cs: "sink_calls (emitted s') = sink_calls (emitted st) @ cs"
    and res: "(case r of
        None \<Rightarrow> list_all snd cs
      | Some x \<Rightarrow>
          \<exists>pm es cs0. x \<in> set xs \<and> \<not> sink_ok x
            \<and> is_earthquake_baslik U (clock x) (title (item x)) = Some pm
            \<and> earthquake_id pm \<notin> detected_earthquakes s'
            \<and> emitted s' = es @ [SinkCall (item x) pm False]
            \<and> cs = cs0 @ [(pm, False)] \<and> list_all snd cs0)"
    by (auto simp: heartbeat_step_fields)
  have "sink_calls (emitted ?st1) = sink_calls (emitted st) @ cs"
    unfolding st1 using cs by (simp add: after_loop_fields)
  then have "cycle_calls U st xs = cs" by (rule cycle_calls_eq)
  with fail have mem: "(pm, False) \<in> set cs" by simp
  have "r \<noteq> None"
  proof
    assume "r = None"
    with res have "list_all snd cs" by simp
    with mem show False by (auto simp: list_all_iff)
  qed
  then obtain x where r: "r = Some x" by auto
  with res obtain pmx es cs0 where x: "x \<in> set xs" "\<not> sink_ok x"
    "is_earthquake_baslik U (clock x) (title (item x)) = Some pmx"
    "earthquake_id pmx \<notin> detected_earthquakes s'"
    "emitted s' = es @ [SinkCall (item x) pmx False]"
    "cs = cs0 @ [(pmx, False)]" "list_all snd cs0" by auto
  from mem x(6,7) have pmx: "pmx = pm" by (auto simp: list_all_iff)
  have st1': "?st1 = handle_exception s' x" unfolding st1 r by (simp add: after_loop_def)
  have run: "running s' = running st"
    using check_basliks_running[of U ?s xs] c by (simp add: heartbeat_step_fields)
  have one: "earthquake_id pm \<notin> detected_earthquakes ?st1"
    unfolding st1' using x(4) pmx by (simp add: handle_exception_fields)
  have two: "\<exists>x \<in> set xs. \<not> sink_ok x
          \<and> is_earthquake_baslik U (clock x) (title (item x)) = Some pm
          \<and> (\<exists>es. emitted ?st1 = es @ [SinkCall (item x) pm False, UnexpectedError])
          \<and> running ?st1 = (running st \<and> log_ok x)"
  proof (intro bexI[of _ x] conjI)
    show "x \<in> set xs" by (rule x(1))
    show "\<not> sink_ok x" by (rule x(2))
    show "is_earthquake_baslik U (clock x) (title (item x)) = Some pm" using x(3) pmx by simp
    show "\<exists>es. emitted ?st1 = es @ [SinkCall (item x) pm False, UnexpectedError]"
      unfolding st1' using x(5) pmx by (simp add: handle_exception_emitted)
    show "running ?st1 = (running st \<and> log_ok x)"
      unfolding st1' using run by (simp add: handle_exception_fields)
  qed
  let ?t = "heartbeat_step (?st1\<lparr>fetch_count := Suc (fetch_count ?st1)\<rparr>)"
  have hd: "hd (pre @ y # post) = hd (pre @ [y])" by (cases pre) simp_all
  have st2: "monitor_cycle U ?st1 (pre @ y # post) = after_loop (check_basliks U ?t (pre @ y # post))"
    using log by (simp add: monitor_cycle_steps[of U ?st1] hd del: check_basliks.simps)
  have fresh: "earthquake_id pm \<notin> detected_earthquakes ?t"
    using one by (simp add: heartbeat_step_fields)
  have ids: "\<forall>z \<in> set pre. sink_ok z
      \<and> (\<forall>q. is_earthquake_baslik U (clock z) (title (item z)) = Some q
              \<longrightarrow> earthquake_id q \<noteq> earthquake_id pm)"
  proof (intro ballI conjI allI impI)
    fix z assume "z \<in> set pre"
    with before show "sink_ok z" by blast
  next
    fix z q assume z: "z \<in> set pre" and q: "is_earthquake_baslik U (clock z) (title (item z)) = Some q"
    with before have "event_identity q \<noteq> event_identity pm" by blast
    moreover have "is_earthquake_baslik U (clock x) (title (item x)) = Some pm" using x(3) pmx by simp
    ultimately show "earthquake_id q \<noteq> earthquake_id pm"
      using detected_identity[OF q] by blast
  qed
  from check_basliks_reaches[OF ids y same_identity_same_id[OF same] fresh, of post]
  obtain cs2 where
    "sink_calls (emitted (fst (check_basliks U ?t (pre @ y # post)))) = sink_calls (emitted ?t) @ cs2"
    and call: "(pm', sink_ok y) \<in> set cs2" by blast
  then have "sink_calls (emitted (monitor_cycle U ?st1 (pre @ y # post))) = sink_calls (emitted ?st1) @ cs2"
    unfolding st2 by (simp add: after_loop_fields heartbeat_step_fields)
  then have "cycle_calls U ?st1 (pre @ y # post) = cs2" by (rule cycle_calls_eq)
  with call have three: "(pm', sink_ok y) \<in> set (cycle_calls U ?st1 (pre @ y # post))" by simp
  from one two three show ?thesis by blast
qed

text \<open>Two cycles, each with the topic of Hakkari before the running example; the sink
  raises for the running example in the first cycle.\<close>

theorem failed_alert_is_sent_again_witness:
  "(example_match, False)
     \<in> set (cycle_calls latin_db initial_state [fetched_title hakkari_folded, example_fetched False])
   \<and> is_earthquake_baslik latin_db (clock (example_fetched True)) (title (item (example_fetched True)))
       = Some example_match
   \<and> sink_ok (fetched_title hakkari_folded)
   \<and> is_earthquake_baslik latin_db (clock (fetched_title hakkari_folded))
        (title (item (fetched_title hakkari_folded))) = Some hakkari_folded_match
   \<and> event_identity hakkari_folded_match \<noteq> event_identity example_match
   \<and> log_ok (hd ([fetched_title hakkari_folded] @ [example_fetched True]))
   \<and> earthquake_id example_match \<notin> detected_earthquakes
        (monitor_cycle latin_db initial_state [fetched_title hakkari_folded, example_fetched False])
   \<and> emitted (monitor_cycle latin_db initial_state [fetched_title hakkari_folded, example_fetched False])
       = [SinkCall (item (fetched_title hakkari_folded)) hakkari_folded_match True]
         @ [SinkCall example_baslik example_match False, UnexpectedError]
   \<and> running (monitor_cycle latin_db initial_state [fetched_title hakkari_folded, example_fetched False])
   \<and> (example_match, sink_ok (example_fetched True))
       \<in> set (cycle_calls latin_db
           (monitor_cycle latin_db initial_state [fetched_title hakkari_folded, example_fetched False])
           ([fetched_title hakkari_folded] @ example_fetched True # []))"
proof -
  have h1: "(example_match, False)
     \<in> set (cycle_calls latin_db initial_state [fetched_title hakkari_folded, example_fetched False])"
    by (simp add: cycle_calls_def example_cycle_with_failure) (simp add: initial_state_def)
  have hk: "is_earthquake_baslik latin_db (clock (fetched_title hakkari_folded))
        (title (item (fetched_title hakkari_folded))) = Some hakkari_folded_match"
    by (simp add: fetched_title_fields hakkari_folded_detected)
  have ne: "event_identity hakkari_folded_match \<noteq> event_identity example_match"
    by (simp add: event_identity_def hakkari_folded_match_def example_match_def ascii_def)
  have h4: "\<forall>z \<in> set [fetched_title hakkari_folded]. sink_ok z
        \<and> (\<forall>q. is_earthquake_baslik latin_db (clock z) (title (item z)) = Some q
                \<longrightarrow> event_identity q \<noteq> event_identity example_match)"
    using hk ne by (simp add: fetched_title_fields)
  have h5: "log_ok (hd ([fetched_title hakkari_folded] @ [example_fetched True]))"
    by (simp add: fetched_title_fields)
  from failed_alert_is_sent_again[OF h1 example_fetched_detected refl h4 h5, where post = "[]"]
  show ?thesis using h1 hk ne h5 example_fetched_detected
    by (simp add: example_cycle_with_failure fetched_title_fields)
qed




section \<open>Two spellings of one province\<close>

text \<open>
  C3. Two titles that differ only in the spelling of the province, accented in one and
  folded to ASCII in the other, are to yield the same identity. The table of the
  normaliser has no entry for U+00E2, so the entry \<open>hakk\<close>U+00E2\<open>ri\<close> of \<open>PROVINCES\<close> does not
  match the folded title, which is matched by the later entry \<open>hakkari\<close>: the two titles
  yield two identities and two identifiers, and a cycle that fetches both records two
  alerts for the one earthquake.
\<close>

theorem hakkari_spellings_two_identities:
  "is_earthquake_baslik latin_db example_now hakkari_accented = Some hakkari_accented_match
   \<and> is_earthquake_baslik latin_db example_now hakkari_folded = Some hakkari_folded_match
   \<and> event_identity hakkari_accented_match \<noteq> event_identity hakkari_folded_match
   \<and> earthquake_id hakkari_accented_match \<noteq> earthquake_id hakkari_folded_match
   \<and> sink_calls (emitted (monitor_earthquakes latin_db
         [[fetched_title hakkari_accented, fetched_title hakkari_folded]]))
       = [(hakkari_accented_match, True), (hakkari_folded_match, True)]"
proof -
  have i: "event_identity hakkari_accented_match \<noteq> event_identity hakkari_folded_match"
    by (simp add: event_identity_def hakkari_accented_match_def hakkari_folded_match_def ascii_def)
  have "sink_calls (emitted (monitor_earthquakes latin_db
         [[fetched_title hakkari_accented, fetched_title hakkari_folded]]))
       = [(hakkari_accented_match, True), (hakkari_folded_match, True)]"
    by (simp add: run_example)
  with i show ?thesis
    by (simp add: hakkari_accented_detected hakkari_folded_detected example_hakkari_ids)
qed

end
